theory Spec2Isabelle
  imports Complex_Main "HOL-Library.AList"
begin

section \<open>The lottery ledger of main.py\<close>

text \<open>
  A shallow embedding of the classes \<open>DB\<close> and \<open>LotteryCore\<close> of \<open>main.py\<close>.
  The SQLite tables are lists of rows in insertion order, the in-memory cursor
  \<open>next_ticket\<close> is a field of the core's state, every method takes the state and
  returns the new one, and every \<open>raise\<close> is an error value returned together with the
  unchanged state. Python's floats are modelled as exact rationals: the amounts the
  code computes are multiples of \<open>0.5\<close> below \<open>2^53\<close>, which binary floating point
  represents exactly. The columns \<open>created_at\<close> and \<open>ts\<close> (wall-clock defaults that no
  query reads) are left out.
\<close>

subsection \<open>Business parameters\<close>

definition TICKET_PRICE :: rat where
  "TICKET_PRICE = 1 / 2"

definition MAX_TICKETS :: int where
  "MAX_TICKETS = 10000"

definition PRIZES :: "rat list" where
  "PRIZES = [2500, 1500, 500]"

definition BOT_FEE :: rat where
  "BOT_FEE = 500"

subsection \<open>Python and SQL primitives\<close>

text \<open>\<open>str(n)\<close> for an integer: decimal digits, with a leading minus sign below zero.\<close>

definition digit_char :: "nat \<Rightarrow> char" where
  "digit_char d = ''0123456789'' ! d"

fun str_nat :: "nat \<Rightarrow> string" where
  "str_nat n = (if n < 10 then [digit_char n] else str_nat (n div 10) @ [digit_char (n mod 10)])"

declare str_nat.simps [simp del]

definition str_int :: "int \<Rightarrow> string" where
  "str_int i = (if i < 0 then CHR ''-'' # str_nat (nat (- i)) else str_nat (nat i))"

text \<open>
  \<open>round(x)\<close> rounds to the nearest integer, ties to the even one; \<open>round(x, n)\<close>
  does the same at \<open>n\<close> decimal places.
\<close>

definition py_round :: "rat \<Rightarrow> int" where
  "py_round x =
     (let f = \<lfloor>x\<rfloor>; d = x - of_int f
      in if d < 1 / 2 then f
         else if 1 / 2 < d then f + 1
         else if even f then f else f + 1)"

definition py_round_ndigits :: "rat \<Rightarrow> nat \<Rightarrow> rat" where
  "py_round_ndigits x n = of_int (py_round (x * 10 ^ n)) / 10 ^ n"

text \<open>\<open>LIMIT n\<close>: the first \<open>n\<close> rows; SQLite reads a negative \<open>n\<close> as no limit.\<close>

definition sql_limit :: "int \<Rightarrow> 'a list \<Rightarrow> 'a list" where
  "sql_limit n rows = (if n < 0 then rows else take (nat n) rows)"

text \<open>
  The next value of an \<open>INTEGER PRIMARY KEY AUTOINCREMENT\<close> column: one more than the
  largest id used so far (\<open>1\<close> in an empty table). No row is ever deleted, so the
  largest id used is the largest id present.
\<close>

definition next_rowid :: "int list \<Rightarrow> int" where
  "next_rowid ids = fold max ids 0 + 1"

text \<open>
  \<open>random.sample(population, k)\<close>: \<open>k\<close> draws without replacement. The random source is
  the explicit argument \<open>rng\<close>; draw \<open>i\<close> takes the element at position
  \<open>rng i mod n\<close> of the \<open>n\<close> elements not drawn yet. Called only with
  \<open>k \<le> length population\<close> (the library raises otherwise).
\<close>

fun random_sample :: "'a list \<Rightarrow> nat \<Rightarrow> (nat \<Rightarrow> nat) \<Rightarrow> 'a list" where
  "random_sample population 0 rng = []"
| "random_sample population (Suc k) rng =
     (let j = rng 0 mod length population
      in population ! j #
         random_sample (take j population @ drop (Suc j) population) k (\<lambda>i. rng (Suc i)))"

subsection \<open>Tables\<close>

record ticket =
  ticket_number :: int
  telegram_id :: string
  active :: bool

text \<open>The column \<open>telegram_id\<close> of \<open>payments\<close> is the field \<open>payer\<close>, the column \<open>id\<close> is \<open>payment_id\<close>.\<close>

record payment =
  payment_id :: int
  payer :: string
  invoice_id :: string
  amount :: rat
  tx_hash :: string
  confirmed :: bool

text \<open>
  A row of \<open>draws\<close>. Its two text columns hold the comma-joined \<open>str\<close> of the winners
  and of the prizes; the row keeps the two lists they are printed from.
\<close>

record draw =
  draw_id :: int
  draw_winners_col :: "int list"
  draw_prizes_col :: "rat list"

record DB =
  users :: "string list"
  tickets :: "ticket list"
  payments :: "payment list"
  draws :: "draw list"

text \<open>The tables \<open>DB._init\<close> creates in a new file.\<close>

definition empty_db :: DB where
  "empty_db = \<lparr>users = [], tickets = [], payments = [], draws = []\<rparr>"

subsection \<open>class DB\<close>

definition ensure_user :: "DB \<Rightarrow> string \<Rightarrow> DB" where
  "ensure_user d tid = (if tid \<in> set (users d) then d else d\<lparr>users := users d @ [tid]\<rparr>)"

text \<open>\<open>INSERT OR REPLACE\<close>: a row with the same primary key is deleted first.\<close>

definition insert_or_replace :: "ticket \<Rightarrow> ticket list \<Rightarrow> ticket list" where
  "insert_or_replace row rows =
     filter (\<lambda>r. ticket_number r \<noteq> ticket_number row) rows @ [row]"

definition add_tickets :: "DB \<Rightarrow> string \<Rightarrow> int list \<Rightarrow> DB" where
  "add_tickets d tid ticket_numbers =
     fold (\<lambda>t d'. d'\<lparr>tickets :=
             insert_or_replace \<lparr>ticket_number = t, telegram_id = tid, active = False\<rparr> (tickets d')\<rparr>)
          ticket_numbers d"

definition activate_tickets :: "DB \<Rightarrow> int list \<Rightarrow> DB" where
  "activate_tickets d ticket_numbers =
     fold (\<lambda>t d'. d'\<lparr>tickets :=
             map (\<lambda>r. if ticket_number r = t then r\<lparr>active := True\<rparr> else r) (tickets d')\<rparr>)
          ticket_numbers d"

definition get_user_tickets :: "DB \<Rightarrow> string \<Rightarrow> int list" where
  "get_user_tickets d tid = sort (map ticket_number (filter (\<lambda>r. telegram_id r = tid) (tickets d)))"

definition count_sold_tickets :: "DB \<Rightarrow> int" where
  "count_sold_tickets d = int (length (filter active (tickets d)))"

definition get_all_active_tickets :: "DB \<Rightarrow> int list" where
  "get_all_active_tickets d = sort (map ticket_number (filter active (tickets d)))"

definition get_ticket_owner :: "DB \<Rightarrow> int \<Rightarrow> string option" where
  "get_ticket_owner d t =
     (case filter (\<lambda>r. ticket_number r = t) (tickets d) of
        [] \<Rightarrow> None
      | r # _ \<Rightarrow> Some (telegram_id r))"

text \<open>\<open>tx_hash or ""\<close> stores the empty string for \<open>None\<close>.\<close>

definition record_payment :: "DB \<Rightarrow> string \<Rightarrow> string \<Rightarrow> rat \<Rightarrow> string option \<Rightarrow> bool \<Rightarrow> DB" where
  "record_payment d tid iid amt tx conf =
     d\<lparr>payments := payments d @
         [\<lparr>payment_id = next_rowid (map payment_id (payments d)),
           payer = tid, invoice_id = iid, amount = amt,
           tx_hash = (case tx of None \<Rightarrow> [] | Some h \<Rightarrow> h),
           confirmed = conf\<rparr>]\<rparr>"

text \<open>What \<open>confirm_payment_by_invoice\<close> returns for the row it found.\<close>

record payment_info =
  info_telegram_id :: string
  info_amount :: rat
  info_invoice_id :: string
  info_payment_id :: int

text \<open>
  The \<open>SELECT\<close> takes the unconfirmed row of this invoice with the largest id
  (\<open>ORDER BY id DESC LIMIT 1\<close>); the \<open>UPDATE\<close> marks the row of that id.
\<close>

definition confirm_payment_by_invoice :: "DB \<Rightarrow> string \<Rightarrow> string \<Rightarrow> payment_info option \<times> DB" where
  "confirm_payment_by_invoice d iid tx =
     (case sql_limit 1 (rev (sort_key payment_id
             (filter (\<lambda>p. invoice_id p = iid \<and> \<not> confirmed p) (payments d)))) of
        [] \<Rightarrow> (None, d)
      | row # _ \<Rightarrow>
          (Some \<lparr>info_telegram_id = payer row, info_amount = amount row,
                 info_invoice_id = iid, info_payment_id = payment_id row\<rparr>,
           d\<lparr>payments :=
               map (\<lambda>p. if payment_id p = payment_id row
                         then p\<lparr>confirmed := True, tx_hash := tx\<rparr> else p)
                   (payments d)\<rparr>))"

definition save_draw :: "DB \<Rightarrow> int list \<Rightarrow> rat list \<Rightarrow> DB" where
  "save_draw d ws ps =
     d\<lparr>draws := draws d @
         [\<lparr>draw_id = next_rowid (map draw_id (draws d)),
           draw_winners_col = ws, draw_prizes_col = ps\<rparr>]\<rparr>"

subsection \<open>class LotteryCore\<close>

record LotteryCore =
  db :: DB
  next_ticket :: int

text \<open>
  The constructor: \<open>(MAX(ticket_number) or 0) + 1\<close>, where the maximum of an empty
  table is \<open>NULL\<close>.
\<close>

definition new_core :: "DB \<Rightarrow> LotteryCore" where
  "new_core d =
     \<lparr>db = d,
      next_ticket =
        (case map ticket_number (tickets d) of
           [] \<Rightarrow> 0
         | n # ns \<Rightarrow> fold max ns n) + 1\<rparr>"

definition init_core :: LotteryCore where
  "init_core = new_core empty_db"

definition available :: "LotteryCore \<Rightarrow> int" where
  "available c = max 0 (MAX_TICKETS - count_sold_tickets (db c))"

text \<open>
  The errors the methods raise, by the place that raises them: the two
  \<open>ValueError\<close>s of \<open>reserve_tickets\<close> (quantity outside 1..100; more than available)
  and the two \<open>RuntimeError\<close>s of \<open>draw_winners\<close> (fewer sold than \<open>MAX_TICKETS\<close>;
  fewer than three active tickets).
\<close>

datatype error = InvalidQuantity | InsufficientCapacity | NotReady | InsufficientPool

text \<open>
  What \<open>reserve_tickets\<close> returns. It reads \<open>tickets[0]\<close> and \<open>tickets[-1]\<close> only
  after the quantity passed the check \<open>qty \<ge> 1\<close>, so the list is not empty there.
\<close>

record reservation =
  reserved :: "int list"
  total_price :: rat
  reserved_invoice_id :: string

definition reserve_tickets :: "LotteryCore \<Rightarrow> string \<Rightarrow> int \<Rightarrow> (error + reservation) \<times> LotteryCore" where
  "reserve_tickets c tid qty =
     (if qty < 1 \<or> qty > 100 then (Inl InvalidQuantity, c)
      else if qty > available c then (Inl InsufficientCapacity, c)
      else
        let ts = map (\<lambda>i. next_ticket c + int i) [0 ..< nat qty];
            d1 = ensure_user (db c) tid;
            d2 = add_tickets d1 tid ts;
            price = py_round_ndigits (of_int qty * TICKET_PRICE) 6;
            iid = tid @ ''-'' @ str_int (hd ts) @ ''-'' @ str_int (last ts);
            d3 = record_payment d2 tid iid price None False
        in (Inr \<lparr>reserved = ts, total_price = price, reserved_invoice_id = iid\<rparr>,
            \<lparr>db = d3, next_ticket = next_ticket c + qty\<rparr>))"

text \<open>
  The dictionary \<open>activate_payment\<close> returns: \<open>{"ok": False, "reason": ...}\<close> or
  \<open>{"ok": True, "activated": ..., "telegram_id": ..., "amount": ...}\<close>.
\<close>

datatype activation =
  Rejected string
| Activated "int list" string rat

definition activate_payment :: "LotteryCore \<Rightarrow> string \<Rightarrow> string \<Rightarrow> activation \<times> LotteryCore" where
  "activate_payment c iid tx =
     (case confirm_payment_by_invoice (db c) iid tx of
        (None, _) \<Rightarrow> (Rejected ''invoice_not_found_or_already_confirmed'', c)
      | (Some info, d1) \<Rightarrow>
          let tid = info_telegram_id info;
              amt = info_amount info;
              expected_qty = py_round (amt / TICKET_PRICE);
              ticket_numbers =
                sql_limit expected_qty
                  (rev (sort (map ticket_number
                     (filter (\<lambda>r. telegram_id r = tid \<and> \<not> active r) (tickets d1)))));
              d2 = (if ticket_numbers \<noteq> [] then activate_tickets d1 ticket_numbers else d1)
          in (Activated ticket_numbers tid amt, c\<lparr>db := d2\<rparr>))"

text \<open>
  The payout loop of \<open>draw_winners\<close>:
  \<open>payouts[owner] = payouts.get(owner, 0.0) + PRIZES[i]\<close> over \<open>enumerate(winners)\<close>.
  The dictionary is an association list in insertion order; a key may be \<open>None\<close>.
\<close>

definition add_payout :: "DB \<Rightarrow> nat \<times> int \<Rightarrow> (string option \<times> rat) list \<Rightarrow> (string option \<times> rat) list" where
  "add_payout d it ps =
     (let owner = get_ticket_owner d (snd it)
      in AList.update owner
           ((case map_of ps owner of None \<Rightarrow> 0 | Some v \<Rightarrow> v) + PRIZES ! fst it) ps)"

definition aggregate_payouts :: "DB \<Rightarrow> int list \<Rightarrow> (string option \<times> rat) list" where
  "aggregate_payouts d ws = fold (add_payout d) (enumerate 0 ws) []"

record draw_result =
  winners :: "int list"
  payouts :: "(string option \<times> rat) list"
  bot_fee :: rat

definition draw_winners :: "LotteryCore \<Rightarrow> (nat \<Rightarrow> nat) \<Rightarrow> (error + draw_result) \<times> LotteryCore" where
  "draw_winners c rng =
     (let sold = count_sold_tickets (db c)
      in if sold < MAX_TICKETS then (Inl NotReady, c)
         else
           let all_tickets = get_all_active_tickets (db c)
           in if length all_tickets < 3 then (Inl InsufficientPool, c)
              else
                let ws = random_sample all_tickets 3 rng;
                    ps = aggregate_payouts (db c) ws
                in (Inr \<lparr>winners = ws, payouts = ps, bot_fee = BOT_FEE\<rparr>,
                    c\<lparr>db := save_draw (db c) ws PRIZES\<rparr>))"

subsection \<open>Reachable states\<close>

text \<open>
  The states the core goes through from a new database file, under any sequence of
  calls with any arguments.
\<close>

inductive reachable :: "LotteryCore \<Rightarrow> bool" where
  reach_init: "reachable init_core"
| reach_reserve: "reachable c \<Longrightarrow> reachable (snd (reserve_tickets c tid qty))"
| reach_confirm: "reachable c \<Longrightarrow> reachable (snd (activate_payment c iid tx))"
| reach_draw: "reachable c \<Longrightarrow> reachable (snd (draw_winners c rng))"

subsection \<open>Notions used in the statements\<close>

text \<open>
  The primary keys of the schema: \<open>tickets.ticket_number\<close> and \<open>payments.id\<close>. The
  inactive ticket numbers of an owner and the unconfirmed payments of an invoice are
  the rows the two \<open>SELECT\<close>s of the confirmation read; \<open>mark_confirmed\<close> and
  \<open>mark_active\<close> are what its two \<open>UPDATE\<close>s do to a table.
\<close>

definition primary_keys :: "DB \<Rightarrow> bool" where
  "primary_keys d \<longleftrightarrow>
     distinct (map ticket_number (tickets d)) \<and> distinct (map payment_id (payments d))"

definition inactive_tickets :: "DB \<Rightarrow> string \<Rightarrow> int list" where
  "inactive_tickets d tid =
     map ticket_number (filter (\<lambda>r. telegram_id r = tid \<and> \<not> active r) (tickets d))"

definition unconfirmed :: "DB \<Rightarrow> string \<Rightarrow> payment list" where
  "unconfirmed d iid = filter (\<lambda>p. invoice_id p = iid \<and> \<not> confirmed p) (payments d)"

definition mark_confirmed :: "int \<Rightarrow> string \<Rightarrow> payment list \<Rightarrow> payment list" where
  "mark_confirmed pid tx ps =
     map (\<lambda>p. if payment_id p = pid then p\<lparr>confirmed := True, tx_hash := tx\<rparr> else p) ps"

definition mark_active :: "int list \<Rightarrow> ticket list \<Rightarrow> ticket list" where
  "mark_active ns ts = map (\<lambda>r. if ticket_number r \<in> set ns then r\<lparr>active := True\<rparr> else r) ts"

text \<open>
  What every reachable state satisfies: the cursor is above every ticket number, the
  primary keys hold, and each payment carries an invoice identifier
  \<open>owner-first-last\<close> of its own, with \<open>first\<close> below the cursor.
\<close>

definition ledger_inv :: "LotteryCore \<Rightarrow> bool" where
  "ledger_inv c \<longleftrightarrow>
     1 \<le> next_ticket c \<and>
     (\<forall>r \<in> set (tickets (db c)). ticket_number r < next_ticket c) \<and>
     primary_keys (db c) \<and>
     distinct (map invoice_id (payments (db c))) \<and>
     (\<forall>p \<in> set (payments (db c)). \<exists>tid f l.
        invoice_id p = tid @ ''-'' @ str_int f @ ''-'' @ str_int l \<and>
        1 \<le> f \<and> 1 \<le> l \<and> f < next_ticket c)"

subsection \<open>Example states\<close>

text \<open>
  The tickets 1 to \<open>n\<close>, all paid, the second owned by \<open>u2\<close> and the others by
  \<open>u1\<close>; and the core once every ticket is sold.
\<close>

definition paid_ticket :: "string \<Rightarrow> int \<Rightarrow> ticket" where
  "paid_ticket tid k = \<lparr>ticket_number = k, telegram_id = tid, active = True\<rparr>"

definition sold_tickets :: "int \<Rightarrow> ticket list" where
  "sold_tickets n =
     paid_ticket ''u1'' 1 # paid_ticket ''u2'' 2 # map (paid_ticket ''u1'') [3 .. n]"

definition sold_out_db :: DB where
  "sold_out_db =
     \<lparr>users = [''u1'', ''u2''], tickets = sold_tickets MAX_TICKETS, payments = [], draws = []\<rparr>"

definition sold_out_core :: LotteryCore where
  "sold_out_core = \<lparr>db = sold_out_db, next_ticket = MAX_TICKETS + 1\<rparr>"

text \<open>
  The ledger after \<open>reserve("u1", 3)\<close> on a new database, and a ledger whose only
  payment is unconfirmed while its owner's only ticket is already active.
\<close>

definition reserved_core :: LotteryCore where
  "reserved_core =
     \<lparr>db = \<lparr>users = [''u1''],
             tickets = [\<lparr>ticket_number = 1, telegram_id = ''u1'', active = False\<rparr>,
                        \<lparr>ticket_number = 2, telegram_id = ''u1'', active = False\<rparr>,
                        \<lparr>ticket_number = 3, telegram_id = ''u1'', active = False\<rparr>],
             payments = [\<lparr>payment_id = 1, payer = ''u1'', invoice_id = ''u1-1-3'',
                          amount = 3 / 2, tx_hash = [], confirmed = False\<rparr>],
             draws = []\<rparr>,
      next_ticket = 4\<rparr>"

definition stale_core :: LotteryCore where
  "stale_core =
     \<lparr>db = \<lparr>users = [''u1''],
             tickets = [\<lparr>ticket_number = 1, telegram_id = ''u1'', active = True\<rparr>],
             payments = [\<lparr>payment_id = 1, payer = ''u1'', invoice_id = ''u1-1-1'',
                          amount = 1 / 2, tx_hash = [], confirmed = False\<rparr>],
             draws = []\<rparr>,
      next_ticket = 2\<rparr>"

text \<open>
  A run from the empty ledger: one owner reserves 100 tickets 101 times, then the 101
  invoices are confirmed in the order they were issued. \<open>batch_invoice i\<close> is the
  invoice identifier the reservation number \<open>i\<close> (from 0) returns.
\<close>

definition batch_invoice :: "nat \<Rightarrow> string" where
  "batch_invoice i = ''u1'' @ ''-'' @ str_int (100 * int i + 1) @ ''-'' @ str_int (100 * int i + 100)"

primrec reserve_batches :: "nat \<Rightarrow> LotteryCore" where
  "reserve_batches 0 = init_core"
| "reserve_batches (Suc n) = snd (reserve_tickets (reserve_batches n) ''u1'' 100)"

primrec confirm_batches :: "nat \<Rightarrow> LotteryCore" where
  "confirm_batches 0 = reserve_batches 101"
| "confirm_batches (Suc m) =
     snd (activate_payment (confirm_batches m) (batch_invoice m) ''0xabc'')"

definition oversold_core :: LotteryCore where
  "oversold_core = confirm_batches 101"

section \<open>Properties\<close>

subsection \<open>Reservation\<close>

lemma range_upto: "map (\<lambda>i. n + int i) [0 ..< k] = [n .. n + int k - 1]"
proof (induction k)
  case 0 show ?case by simp
next
  case (Suc k)
  have "[n .. n + int (Suc k) - 1] = [n .. n + int k - 1] @ [n + int k]"
    using upto_rec2 [of n "n + int k"] by simp
  with Suc show ?case by simp
qed

lemma py_round_of_int: "py_round (of_int k) = k"
  by (simp add: py_round_def)

lemma price_exact: "py_round_ndigits (of_int q * TICKET_PRICE) 6 = of_int q * TICKET_PRICE"
proof -
  have "of_int q * TICKET_PRICE * 10 ^ 6 = (of_int (q * 500000) :: rat)"
    by (simp add: TICKET_PRICE_def)
  then show ?thesis
    unfolding py_round_ndigits_def by (simp only: py_round_of_int) (simp add: TICKET_PRICE_def)
qed

lemma tickets_add_tickets:
  "distinct ts \<Longrightarrow>
   tickets (add_tickets d tid ts) =
     filter (\<lambda>r. ticket_number r \<notin> set ts) (tickets d) @
     map (\<lambda>t. \<lparr>ticket_number = t, telegram_id = tid, active = False\<rparr>) ts"
  unfolding add_tickets_def
proof (induction ts arbitrary: d)
  case Nil show ?case by simp
next
  case (Cons t ts)
  then show ?case by (simp add: insert_or_replace_def conj_commute)
qed

lemma add_tickets_other [simp]:
  "users (add_tickets d tid ts) = users d"
  "payments (add_tickets d tid ts) = payments d"
  "draws (add_tickets d tid ts) = draws d"
  unfolding add_tickets_def by (induction ts arbitrary: d) simp_all

lemma ensure_user_other [simp]:
  "tickets (ensure_user d tid) = tickets d"
  "payments (ensure_user d tid) = payments d"
  "draws (ensure_user d tid) = draws d"
  by (simp_all add: ensure_user_def)

lemma reserve_tickets_ok:
  assumes "1 \<le> qty" "qty \<le> 100" "qty \<le> available c"
  shows "reserve_tickets c tid qty =
    (Inr \<lparr>reserved = [next_ticket c .. next_ticket c + qty - 1],
          total_price = of_int qty * TICKET_PRICE,
          reserved_invoice_id =
            tid @ ''-'' @ str_int (next_ticket c) @ ''-'' @ str_int (next_ticket c + qty - 1)\<rparr>,
     \<lparr>db = record_payment
             (add_tickets (ensure_user (db c) tid) tid [next_ticket c .. next_ticket c + qty - 1])
             tid
             (tid @ ''-'' @ str_int (next_ticket c) @ ''-'' @ str_int (next_ticket c + qty - 1))
             (of_int qty * TICKET_PRICE) None False,
      next_ticket = next_ticket c + qty\<rparr>)"
proof -
  let ?n = "next_ticket c"
  have ts: "map (\<lambda>i. ?n + int i) [0 ..< nat qty] = [?n .. ?n + qty - 1]"
    using assms(1) by (simp add: range_upto)
  have hd: "hd [?n .. ?n + qty - 1] = ?n"
    using assms(1) by (simp add: upto_rec1)
  have lst: "last [?n .. ?n + qty - 1] = ?n + qty - 1"
    using assms(1) upto_rec2 [of ?n "?n + qty - 1"] by simp
  show ?thesis
    using assms unfolding reserve_tickets_def Let_def ts hd lst price_exact by simp
qed

lemma reserve_tickets_invalid:
  "qty < 1 \<or> 100 < qty \<Longrightarrow> reserve_tickets c tid qty = (Inl InvalidQuantity, c)"
  by (auto simp: reserve_tickets_def)

lemma reserve_tickets_insufficient:
  "1 \<le> qty \<Longrightarrow> qty \<le> 100 \<Longrightarrow> available c < qty \<Longrightarrow>
   reserve_tickets c tid qty = (Inl InsufficientCapacity, c)"
  by (auto simp: reserve_tickets_def)

lemma reserve_tickets_failed:
  "fst (reserve_tickets c tid qty) = Inl e \<Longrightarrow> snd (reserve_tickets c tid qty) = c"
  by (auto simp: reserve_tickets_def Let_def split: if_splits)

lemma filter_active_sold_tickets: "filter active (sold_tickets n) = sold_tickets n"
  by (simp add: sold_tickets_def paid_ticket_def filter_map o_def)

lemma numbers_sold_tickets: "2 \<le> n \<Longrightarrow> map ticket_number (sold_tickets n) = [1 .. n]"
proof -
  assume n: "2 \<le> n"
  have "map ticket_number (map (paid_ticket ''u1'') [3 .. n]) = [3 .. n]"
    by (simp add: paid_ticket_def o_def)
  moreover have "[1 .. n] = 1 # 2 # [3 .. n]"
    using n upto_rec1 [of 1 n] upto_rec1 [of 2 n] by simp
  ultimately show ?thesis by (simp add: sold_tickets_def paid_ticket_def)
qed

lemma length_sold_tickets: "2 \<le> n \<Longrightarrow> length (sold_tickets n) = nat n"
  using numbers_sold_tickets [of n] length_map [of ticket_number "sold_tickets n"] by simp

lemma count_sold_tickets_sold:
  "2 \<le> n \<Longrightarrow> tickets d = sold_tickets n \<Longrightarrow> count_sold_tickets d = n"
  by (simp add: count_sold_tickets_def filter_active_sold_tickets length_sold_tickets)

lemma db_sold_out: "db sold_out_core = sold_out_db"
  by (simp add: sold_out_core_def)

lemma tickets_sold_out: "tickets sold_out_db = sold_tickets MAX_TICKETS"
  by (simp add: sold_out_db_def)

lemma count_sold_out: "count_sold_tickets (db sold_out_core) = MAX_TICKETS"
  unfolding db_sold_out
  by (rule count_sold_tickets_sold [OF _ tickets_sold_out]) (simp add: MAX_TICKETS_def)

lemma available_init: "available init_core = MAX_TICKETS"
  by (simp add: available_def init_core_def new_core_def empty_db_def count_sold_tickets_def MAX_TICKETS_def)

lemma next_ticket_init: "next_ticket init_core = 1"
  by (simp add: init_core_def new_core_def empty_db_def)

text \<open>
  Claim C2. A reservation of a quantity between 1 and 100 that is within availability
  succeeds: it returns the contiguous numbers from the cursor on, exactly \<open>qty\<close> of
  them, the price \<open>qty * TICKET_PRICE\<close> (rounding to six decimals changes nothing)
  and the invoice id \<open>owner-first-last\<close>; the cursor advances by \<open>qty\<close>, one
  unconfirmed payment row for the price is appended, and the numbers are stored as
  inactive tickets of the owner.
\<close>

theorem reserve_success:
  assumes "1 \<le> qty" and "qty \<le> 100" and "qty \<le> available c"
  shows "fst (reserve_tickets c tid qty) =
           Inr \<lparr>reserved = [next_ticket c .. next_ticket c + qty - 1],
                total_price = of_int qty * TICKET_PRICE,
                reserved_invoice_id =
                  tid @ ''-'' @ str_int (next_ticket c) @ ''-'' @ str_int (next_ticket c + qty - 1)\<rparr>
         \<and> length [next_ticket c .. next_ticket c + qty - 1] = nat qty
         \<and> next_ticket (snd (reserve_tickets c tid qty)) = next_ticket c + qty
         \<and> payments (db (snd (reserve_tickets c tid qty))) =
             payments (db c) @
             [\<lparr>payment_id = next_rowid (map payment_id (payments (db c))),
               payer = tid,
               invoice_id =
                 tid @ ''-'' @ str_int (next_ticket c) @ ''-'' @ str_int (next_ticket c + qty - 1),
               amount = of_int qty * TICKET_PRICE, tx_hash = [], confirmed = False\<rparr>]
         \<and> tickets (db (snd (reserve_tickets c tid qty))) =
             filter (\<lambda>r. ticket_number r \<notin> {next_ticket c .. next_ticket c + qty - 1}) (tickets (db c)) @
             map (\<lambda>t. \<lparr>ticket_number = t, telegram_id = tid, active = False\<rparr>)
                 [next_ticket c .. next_ticket c + qty - 1]"
  using assms
  by (simp add: reserve_tickets_ok [OF assms] record_payment_def tickets_add_tickets)

text \<open>The scenario of the specification: \<open>reserve("u1", 3)\<close> on a new ledger.\<close>

theorem reserve_success_witness:
  "(1::int) \<le> 3 \<and> (3::int) \<le> 100 \<and> 3 \<le> available init_core
   \<and> fst (reserve_tickets init_core ''u1'' 3) =
        Inr \<lparr>reserved = [1, 2, 3], total_price = 3 / 2, reserved_invoice_id = ''u1-1-3''\<rparr>
   \<and> next_ticket (snd (reserve_tickets init_core ''u1'' 3)) = 4
   \<and> payments (db (snd (reserve_tickets init_core ''u1'' 3))) =
        [\<lparr>payment_id = 1, payer = ''u1'', invoice_id = ''u1-1-3'', amount = 3 / 2,
          tx_hash = [], confirmed = False\<rparr>]
   \<and> tickets (db (snd (reserve_tickets init_core ''u1'' 3))) =
        [\<lparr>ticket_number = 1, telegram_id = ''u1'', active = False\<rparr>,
         \<lparr>ticket_number = 2, telegram_id = ''u1'', active = False\<rparr>,
         \<lparr>ticket_number = 3, telegram_id = ''u1'', active = False\<rparr>]"
proof -
  have a: "3 \<le> available init_core" by (simp add: available_init MAX_TICKETS_def)
  have u: "[1 .. 3] = [1, 2, 3 :: int]" by (simp add: upto_rec1)
  have e: "payments (db init_core) = []" "tickets (db init_core) = []"
    by (simp_all add: init_core_def new_core_def empty_db_def)
  show ?thesis
    using reserve_success [of 3 init_core "''u1''"] a
    by (simp add: next_ticket_init u e TICKET_PRICE_def str_int_def str_nat.simps digit_char_def
        next_rowid_def)
qed

text \<open>
  Claim C7. A quantity outside 1..100 is rejected as \<open>InvalidQuantity\<close>, a quantity
  in range above the availability as \<open>InsufficientCapacity\<close>, and a rejected
  reservation returns the state it was given: no user, ticket or payment row is
  written and the cursor stays.
\<close>

theorem reserve_rejected:
  "(qty < 1 \<or> 100 < qty \<longrightarrow> reserve_tickets c tid qty = (Inl InvalidQuantity, c))
   \<and> (1 \<le> qty \<and> qty \<le> 100 \<and> available c < qty \<longrightarrow>
        reserve_tickets c tid qty = (Inl InsufficientCapacity, c))
   \<and> (\<forall>e. fst (reserve_tickets c tid qty) = Inl e \<longrightarrow>
        snd (reserve_tickets c tid qty) = c)"
  using reserve_tickets_invalid reserve_tickets_insufficient reserve_tickets_failed
  by blast

text \<open>Quantities 0, 101 and -5 on a new ledger, and one ticket once all are sold.\<close>

theorem reserve_rejected_witness:
  "reserve_tickets init_core ''u1'' 0 = (Inl InvalidQuantity, init_core)
   \<and> reserve_tickets init_core ''u1'' 101 = (Inl InvalidQuantity, init_core)
   \<and> reserve_tickets init_core ''u1'' (- 5) = (Inl InvalidQuantity, init_core)
   \<and> available sold_out_core = 0
   \<and> reserve_tickets sold_out_core ''u2'' 1 = (Inl InsufficientCapacity, sold_out_core)
   \<and> snd (reserve_tickets sold_out_core ''u2'' 1) = sold_out_core"
proof -
  have a: "available sold_out_core = 0"
    by (simp add: available_def count_sold_out)
  show ?thesis
    using reserve_rejected [of 0 init_core "''u1''"]
      reserve_rejected [of 101 init_core "''u1''"]
      reserve_rejected [of "- 5" init_core "''u1''"]
      reserve_rejected [of 1 sold_out_core "''u2''"] a
    by simp
qed

text \<open>
  Claim C8. The availability is the capacity minus the number of active tickets
  (never below zero), whatever inactive rows the table holds, and a reservation is
  rejected as \<open>InsufficientCapacity\<close> exactly when its quantity, valid in itself,
  is above the capacity minus the number of active tickets.
\<close>

theorem availability_counts_active_only:
  "available c = max 0 (MAX_TICKETS - int (length (filter active (tickets (db c)))))
   \<and> (fst (reserve_tickets c tid qty) = Inl InsufficientCapacity
        \<longleftrightarrow> 1 \<le> qty \<and> qty \<le> 100 \<and>
            MAX_TICKETS - int (length (filter active (tickets (db c)))) < qty)"
  by (auto simp: reserve_tickets_def available_def count_sold_tickets_def Let_def)

subsection \<open>The draw\<close>

lemma length_get_all_active_tickets:
  "int (length (get_all_active_tickets d)) = count_sold_tickets d"
  by (simp add: get_all_active_tickets_def count_sold_tickets_def)

lemma set_get_all_active_tickets:
  "set (get_all_active_tickets d) = {ticket_number r | r. r \<in> set (tickets d) \<and> active r}"
  by (auto simp: get_all_active_tickets_def)

lemma distinct_get_all_active_tickets:
  "distinct (map ticket_number (tickets d)) \<Longrightarrow> distinct (get_all_active_tickets d)"
  by (simp add: get_all_active_tickets_def distinct_map_filter)

lemma nth_not_in_rest:
  assumes "distinct xs" and "j < length xs"
  shows "xs ! j \<notin> set (take j xs @ drop (Suc j) xs)"
proof -
  have "distinct (take j xs @ xs ! j # drop (Suc j) xs)"
    using assms by (simp add: id_take_nth_drop [symmetric])
  then show ?thesis by auto
qed

lemma distinct_rest:
  assumes "distinct xs"
  shows "distinct (take j xs @ drop (Suc j) xs)"
proof -
  have "set (take j xs) \<inter> set (drop (Suc j) xs) = {}"
    using assms set_take_disj_set_drop_if_distinct [of xs j "Suc j"] by simp
  with assms show ?thesis by simp
qed

lemma set_rest: "set (take j xs @ drop (Suc j) xs) \<subseteq> set xs"
  by (auto dest: in_set_takeD in_set_dropD)

lemma length_random_sample:
  "k \<le> length xs \<Longrightarrow> length (random_sample xs k rng) = k"
proof (induction k arbitrary: xs rng)
  case 0 show ?case by simp
next
  case (Suc k)
  then have "xs \<noteq> []" by auto
  then have "rng 0 mod length xs < length xs" by simp
  then have "k \<le> length (take (rng 0 mod length xs) xs @ drop (Suc (rng 0 mod length xs)) xs)"
    using Suc.prems by simp
  then show ?case using Suc.IH by (simp add: Let_def)
qed

lemma set_random_sample:
  "k \<le> length xs \<Longrightarrow> set (random_sample xs k rng) \<subseteq> set xs"
proof (induction k arbitrary: xs rng)
  case 0 show ?case by simp
next
  case (Suc k)
  let ?j = "rng 0 mod length xs"
  let ?r = "take ?j xs @ drop (Suc ?j) xs"
  from Suc.prems have "xs \<noteq> []" by auto
  then have j: "?j < length xs" by simp
  then have "k \<le> length ?r" using Suc.prems by simp
  then have "set (random_sample ?r k (\<lambda>i. rng (Suc i))) \<subseteq> set ?r" by (rule Suc.IH)
  also have "\<dots> \<subseteq> set xs" by (rule set_rest)
  finally show ?case using j by (simp add: Let_def)
qed

lemma distinct_random_sample:
  "k \<le> length xs \<Longrightarrow> distinct xs \<Longrightarrow> distinct (random_sample xs k rng)"
proof (induction k arbitrary: xs rng)
  case 0 show ?case by simp
next
  case (Suc k)
  let ?j = "rng 0 mod length xs"
  let ?r = "take ?j xs @ drop (Suc ?j) xs"
  from Suc.prems have "xs \<noteq> []" by auto
  then have j: "?j < length xs" by simp
  then have len: "k \<le> length ?r" using Suc.prems by simp
  have d: "distinct ?r" using Suc.prems(2) by (rule distinct_rest)
  have "distinct (random_sample ?r k (\<lambda>i. rng (Suc i)))" using len d by (rule Suc.IH)
  moreover have "xs ! ?j \<notin> set (random_sample ?r k (\<lambda>i. rng (Suc i)))"
    using set_random_sample [OF len] nth_not_in_rest [OF Suc.prems(2) j] by blast
  ultimately show ?case by (simp add: Let_def)
qed

lemma draw_winners_not_ready:
  "count_sold_tickets (db c) < MAX_TICKETS \<Longrightarrow> draw_winners c rng = (Inl NotReady, c)"
  by (simp add: draw_winners_def)

lemma pool_at_capacity:
  "MAX_TICKETS \<le> count_sold_tickets (db c) \<Longrightarrow> 3 \<le> length (get_all_active_tickets (db c))"
  using length_get_all_active_tickets [of "db c"] by (simp add: MAX_TICKETS_def)

lemma draw_winners_ok:
  assumes "MAX_TICKETS \<le> count_sold_tickets (db c)"
  shows "draw_winners c rng =
    (Inr \<lparr>winners = random_sample (get_all_active_tickets (db c)) 3 rng,
          payouts = aggregate_payouts (db c) (random_sample (get_all_active_tickets (db c)) 3 rng),
          bot_fee = BOT_FEE\<rparr>,
     c\<lparr>db := save_draw (db c) (random_sample (get_all_active_tickets (db c)) 3 rng) PRIZES\<rparr>)"
  using assms pool_at_capacity [OF assms] by (simp add: draw_winners_def Let_def)

lemma draw_winners_cases:
  "(count_sold_tickets (db c) < MAX_TICKETS \<and> draw_winners c rng = (Inl NotReady, c)) \<or>
   (MAX_TICKETS \<le> count_sold_tickets (db c) \<and> (\<exists>res. fst (draw_winners c rng) = Inr res))"
  using draw_winners_not_ready [of c rng] draw_winners_ok [of c rng]
  by (cases "count_sold_tickets (db c) < MAX_TICKETS") auto

lemma map_of_aggregate_payouts:
  assumes "length ws = 3"
  shows "map_of (aggregate_payouts d ws) who =
    (let slots = filter (\<lambda>i. get_ticket_owner d (ws ! i) = who) [0 ..< 3]
     in if slots = [] then None else Some (sum_list (map (\<lambda>i. PRIZES ! i) slots)))"
proof -
  from assms obtain a b c where ws: "ws = [a, b, c]"
    by (cases ws; simp; rename_tac x xs; case_tac xs; simp; rename_tac y ys; case_tac ys; simp)
  have u: "[0 ..< 3] = [0, 1, 2]" by (simp add: upt_rec)
  show ?thesis
    unfolding ws u aggregate_payouts_def
    by (simp add: add_payout_def enumerate_simps update_conv' Let_def PRIZES_def)
qed

lemma pool_sold_tickets:
  "2 \<le> n \<Longrightarrow> tickets d = sold_tickets n \<Longrightarrow> get_all_active_tickets d = [1 .. n]"
  by (simp add: get_all_active_tickets_def filter_active_sold_tickets numbers_sold_tickets)

lemma sample_heads:
  "random_sample (a # b # c # xs) (Suc (Suc (Suc 0))) (\<lambda>_. 0) = [a, b, c]"
  by simp

lemma sample_first_three:
  assumes "3 \<le> n"
  shows "random_sample [1 .. n] 3 (\<lambda>_. 0) = [1, 2, 3]"
proof -
  have "[1 .. n] = 1 # 2 # 3 # [4 .. n]"
    using assms upto_rec1 [of 1 n] upto_rec1 [of 2 n] upto_rec1 [of 3 n] by simp
  then show ?thesis by (simp only: numeral_3_eq_3 sample_heads)
qed

lemma owners_sold_tickets:
  assumes "3 \<le> n" and "tickets d = sold_tickets n"
  shows "get_ticket_owner d 1 = Some ''u1''"
    and "get_ticket_owner d 2 = Some ''u2''"
    and "get_ticket_owner d 3 = Some ''u1''"
proof -
  have "[3 .. n] = 3 # [4 .. n]" using assms(1) upto_rec1 [of 3 n] by simp
  then have t: "tickets d =
      paid_ticket ''u1'' 1 # paid_ticket ''u2'' 2 # paid_ticket ''u1'' 3 #
      map (paid_ticket ''u1'') [4 .. n]"
    by (simp add: assms(2) sold_tickets_def)
  show "get_ticket_owner d 1 = Some ''u1''"
    and "get_ticket_owner d 2 = Some ''u2''"
    and "get_ticket_owner d 3 = Some ''u1''"
    by (simp_all add: get_ticket_owner_def t paid_ticket_def)
qed

lemma pool_sold_out: "get_all_active_tickets sold_out_db = [1 .. MAX_TICKETS]"
  by (rule pool_sold_tickets [OF _ tickets_sold_out]) (simp add: MAX_TICKETS_def)

lemma winners_sold_out: "random_sample (get_all_active_tickets sold_out_db) 3 (\<lambda>_. 0) = [1, 2, 3]"
  unfolding pool_sold_out by (rule sample_first_three) (simp add: MAX_TICKETS_def)

lemma payouts_sold_out:
  "aggregate_payouts sold_out_db [1, 2, 3] = [(Some ''u1'', 3000), (Some ''u2'', 1500)]"
proof -
  have n: "3 \<le> MAX_TICKETS" by (simp add: MAX_TICKETS_def)
  show ?thesis
    by (simp add: aggregate_payouts_def add_payout_def enumerate_simps PRIZES_def
        owners_sold_tickets [OF n tickets_sold_out])
qed

lemma draw_sold_out:
  "draw_winners sold_out_core (\<lambda>_. 0) =
     (Inr \<lparr>winners = [1, 2, 3], payouts = [(Some ''u1'', 3000), (Some ''u2'', 1500)],
           bot_fee = BOT_FEE\<rparr>,
      sold_out_core\<lparr>db := save_draw sold_out_db [1, 2, 3] PRIZES\<rparr>)"
proof -
  have "MAX_TICKETS \<le> count_sold_tickets (db sold_out_core)"
    by (simp only: count_sold_out)
  from draw_winners_ok [OF this, of "\<lambda>_. 0"] show ?thesis
    by (simp only: db_sold_out winners_sold_out payouts_sold_out)
qed

subsection \<open>The result of a draw\<close>

lemma distinct_sold_out: "distinct (map ticket_number (tickets (db sold_out_core)))"
  unfolding db_sold_out tickets_sold_out
  by (subst numbers_sold_tickets) (simp_all add: MAX_TICKETS_def)

lemma save_draw_other [simp]:
  "tickets (save_draw d ws ps) = tickets d"
  "payments (save_draw d ws ps) = payments d"
  "users (save_draw d ws ps) = users d"
  by (simp_all add: save_draw_def)

lemma draws_save_draw:
  "draws (save_draw d ws ps) =
     draws d @ [\<lparr>draw_id = next_rowid (map draw_id (draws d)),
                 draw_winners_col = ws, draw_prizes_col = ps\<rparr>]"
  by (simp add: save_draw_def)

lemma same_tickets:
  assumes "tickets d' = tickets d"
  shows "count_sold_tickets d' = count_sold_tickets d"
    and "get_all_active_tickets d' = get_all_active_tickets d"
    and "aggregate_payouts d' ws = aggregate_payouts d ws"
proof -
  have "get_ticket_owner d' = get_ticket_owner d"
    by (rule ext) (simp add: get_ticket_owner_def assms)
  then have "add_payout d' = add_payout d"
    by (intro ext) (simp add: add_payout_def)
  then show "aggregate_payouts d' ws = aggregate_payouts d ws"
    by (simp add: aggregate_payouts_def)
qed (simp_all add: count_sold_tickets_def get_all_active_tickets_def assms)

lemma draw_winners_success:
  assumes "fst (draw_winners c rng) = Inr res"
  shows "MAX_TICKETS \<le> count_sold_tickets (db c)"
  using assms draw_winners_not_ready [of c rng]
  by (cases "count_sold_tickets (db c) < MAX_TICKETS") auto

text \<open>
  Claim C5. A draw that succeeds returns three ticket numbers, pairwise distinct, each
  the number of an active ticket at the time of the draw (ticket numbers are the
  primary key of the table). Prize \<open>i\<close> goes to winner \<open>i\<close>: the payouts hold, for
  each owner, the sum of \<open>PRIZES ! i\<close> over the slots \<open>i\<close> whose winning ticket the
  owner holds, and no entry for an owner without a winning ticket; the draw row stores
  the winners beside \<open>PRIZES\<close> in the same order.
\<close>

theorem draw_result_sound:
  assumes "distinct (map ticket_number (tickets (db c)))"
    and "fst (draw_winners c rng) = Inr res"
  shows "length (winners res) = 3
    \<and> distinct (winners res)
    \<and> set (winners res) \<subseteq> {ticket_number r | r. r \<in> set (tickets (db c)) \<and> active r}
    \<and> (\<forall>who. map_of (payouts res) who =
          (let slots = filter (\<lambda>i. get_ticket_owner (db c) (winners res ! i) = who) [0 ..< 3]
           in if slots = [] then None else Some (sum_list (map (\<lambda>i. PRIZES ! i) slots))))
    \<and> bot_fee res = BOT_FEE
    \<and> draws (db (snd (draw_winners c rng))) =
          draws (db c) @ [\<lparr>draw_id = next_rowid (map draw_id (draws (db c))),
                           draw_winners_col = winners res, draw_prizes_col = PRIZES\<rparr>]"
proof -
  let ?pool = "get_all_active_tickets (db c)"
  have cap: "MAX_TICKETS \<le> count_sold_tickets (db c)"
    using assms(2) by (rule draw_winners_success)
  have len: "3 \<le> length ?pool" using cap by (rule pool_at_capacity)
  have res: "res = \<lparr>winners = random_sample ?pool 3 rng,
        payouts = aggregate_payouts (db c) (random_sample ?pool 3 rng), bot_fee = BOT_FEE\<rparr>"
    using assms(2) by (simp add: draw_winners_ok [OF cap])
  have w: "winners res = random_sample ?pool 3 rng" by (simp add: res)
  have l: "length (winners res) = 3" unfolding w using len by (rule length_random_sample)
  have d: "distinct (winners res)"
    unfolding w using len distinct_get_all_active_tickets [OF assms(1)]
    by (rule distinct_random_sample)
  have s: "set (winners res) \<subseteq> {ticket_number r | r. r \<in> set (tickets (db c)) \<and> active r}"
    unfolding w using set_random_sample [OF len, of rng]
    by (simp only: set_get_all_active_tickets)
  have p: "\<And>who. map_of (payouts res) who =
          (let slots = filter (\<lambda>i. get_ticket_owner (db c) (winners res ! i) = who) [0 ..< 3]
           in if slots = [] then None else Some (sum_list (map (\<lambda>i. PRIZES ! i) slots)))"
    using map_of_aggregate_payouts [OF l, of "db c"] by (simp add: res)
  have r: "draws (db (snd (draw_winners c rng))) =
          draws (db c) @ [\<lparr>draw_id = next_rowid (map draw_id (draws (db c))),
                           draw_winners_col = winners res, draw_prizes_col = PRIZES\<rparr>]"
    by (simp add: draw_winners_ok [OF cap] draws_save_draw w)
  have b: "bot_fee res = BOT_FEE" by (simp add: res)
  from l d s p b r show ?thesis by blast
qed

text \<open>
  With every ticket sold and the first three of the pool drawn, \<open>u1\<close> holds the
  winners of slots 0 and 2 and is paid \<open>2500 + 500\<close>.
\<close>

theorem draw_result_sound_witness:
  "distinct (map ticket_number (tickets (db sold_out_core)))
   \<and> fst (draw_winners sold_out_core (\<lambda>_. 0)) =
        Inr \<lparr>winners = [1, 2, 3], payouts = [(Some ''u1'', 3000), (Some ''u2'', 1500)],
             bot_fee = BOT_FEE\<rparr>
   \<and> get_ticket_owner (db sold_out_core) 1 = Some ''u1''
   \<and> get_ticket_owner (db sold_out_core) 2 = Some ''u2''
   \<and> get_ticket_owner (db sold_out_core) 3 = Some ''u1''
   \<and> map_of [(Some ''u1'', 3000), (Some ''u2'', 1500 :: rat)] (Some ''u1'') =
        Some (PRIZES ! 0 + PRIZES ! 2)
   \<and> draws (db (snd (draw_winners sold_out_core (\<lambda>_. 0)))) =
        [\<lparr>draw_id = 1, draw_winners_col = [1, 2, 3], draw_prizes_col = PRIZES\<rparr>]"
proof -
  have n: "3 \<le> MAX_TICKETS" by (simp add: MAX_TICKETS_def)
  note own = owners_sold_tickets [OF n tickets_sold_out]
  have r: "fst (draw_winners sold_out_core (\<lambda>_. 0)) =
        Inr \<lparr>winners = [1, 2, 3], payouts = [(Some ''u1'', 3000), (Some ''u2'', 1500)],
             bot_fee = BOT_FEE\<rparr>"
    by (simp add: draw_sold_out)
  have e: "draws (db sold_out_core) = []" by (simp add: sold_out_core_def sold_out_db_def)
  have u: "[0 ..< 3] = [0, 1, 2]" by (simp add: upt_rec)
  from draw_result_sound [OF distinct_sold_out r]
  have "map_of [(Some ''u1'', 3000), (Some ''u2'', 1500 :: rat)] (Some ''u1'') =
        Some (PRIZES ! 0 + PRIZES ! 2)
     \<and> draws (db (snd (draw_winners sold_out_core (\<lambda>_. 0)))) =
        [\<lparr>draw_id = 1, draw_winners_col = [1, 2, 3], draw_prizes_col = PRIZES\<rparr>]"
    by (simp add: e next_rowid_def PRIZES_def)
  with distinct_sold_out r own show ?thesis by (simp add: db_sold_out)
qed

text \<open>
  Claim C9. A draw that succeeds leaves users, tickets, payments and the cursor as
  they were and appends one row to \<open>draws\<close>; a second draw right after it succeeds
  too, whatever its random source, and samples the same pool again.
\<close>

theorem draw_only_appends:
  assumes "fst (draw_winners c rng) = Inr res"
  shows "users (db (snd (draw_winners c rng))) = users (db c)
    \<and> tickets (db (snd (draw_winners c rng))) = tickets (db c)
    \<and> payments (db (snd (draw_winners c rng))) = payments (db c)
    \<and> next_ticket (snd (draw_winners c rng)) = next_ticket c
    \<and> draws (db (snd (draw_winners c rng))) =
          draws (db c) @ [\<lparr>draw_id = next_rowid (map draw_id (draws (db c))),
                           draw_winners_col = winners res, draw_prizes_col = PRIZES\<rparr>]
    \<and> (\<forall>rng'. fst (draw_winners (snd (draw_winners c rng)) rng') =
          Inr \<lparr>winners = random_sample (get_all_active_tickets (db c)) 3 rng',
               payouts = aggregate_payouts (db c)
                           (random_sample (get_all_active_tickets (db c)) 3 rng'),
               bot_fee = BOT_FEE\<rparr>)"
proof -
  let ?c' = "snd (draw_winners c rng)"
  have cap: "MAX_TICKETS \<le> count_sold_tickets (db c)"
    using assms by (rule draw_winners_success)
  have w: "winners res = random_sample (get_all_active_tickets (db c)) 3 rng"
    using assms by (auto simp: draw_winners_ok [OF cap])
  have c': "?c' = c\<lparr>db := save_draw (db c) (winners res) PRIZES\<rparr>"
    by (simp add: draw_winners_ok [OF cap] w)
  have t: "tickets (db ?c') = tickets (db c)" by (simp add: c')
  have cap': "MAX_TICKETS \<le> count_sold_tickets (db ?c')"
    using cap by (simp only: same_tickets(1) [OF t])
  have again: "\<And>rng'. fst (draw_winners ?c' rng') =
          Inr \<lparr>winners = random_sample (get_all_active_tickets (db c)) 3 rng',
               payouts = aggregate_payouts (db c)
                           (random_sample (get_all_active_tickets (db c)) 3 rng'),
               bot_fee = BOT_FEE\<rparr>"
    by (simp only: draw_winners_ok [OF cap'] same_tickets(2,3) [OF t] fst_conv)
  have "users (db ?c') = users (db c)" "payments (db ?c') = payments (db c)"
    "next_ticket ?c' = next_ticket c"
    "draws (db ?c') = draws (db c) @ [\<lparr>draw_id = next_rowid (map draw_id (draws (db c))),
                           draw_winners_col = winners res, draw_prizes_col = PRIZES\<rparr>]"
    by (simp_all add: c' draws_save_draw)
  with t again show ?thesis by blast
qed

text \<open>Two draws in a row once every ticket is sold.\<close>

theorem draw_only_appends_witness:
  "fst (draw_winners sold_out_core (\<lambda>_. 0)) =
        Inr \<lparr>winners = [1, 2, 3], payouts = [(Some ''u1'', 3000), (Some ''u2'', 1500)],
             bot_fee = BOT_FEE\<rparr>
   \<and> tickets (db (snd (draw_winners sold_out_core (\<lambda>_. 0)))) = tickets (db sold_out_core)
   \<and> payments (db (snd (draw_winners sold_out_core (\<lambda>_. 0)))) = []
   \<and> draws (db (snd (draw_winners sold_out_core (\<lambda>_. 0)))) =
        [\<lparr>draw_id = 1, draw_winners_col = [1, 2, 3], draw_prizes_col = PRIZES\<rparr>]
   \<and> fst (draw_winners (snd (draw_winners sold_out_core (\<lambda>_. 0))) (\<lambda>_. 0)) =
        Inr \<lparr>winners = [1, 2, 3], payouts = [(Some ''u1'', 3000), (Some ''u2'', 1500)],
             bot_fee = BOT_FEE\<rparr>"
proof -
  have r: "fst (draw_winners sold_out_core (\<lambda>_. 0)) =
        Inr \<lparr>winners = [1, 2, 3], payouts = [(Some ''u1'', 3000), (Some ''u2'', 1500)],
             bot_fee = BOT_FEE\<rparr>"
    by (simp add: draw_sold_out)
  have e: "draws sold_out_db = []" "payments sold_out_db = []"
    by (simp_all add: sold_out_db_def)
  from draw_only_appends [OF r] r show ?thesis
    by (simp add: e next_rowid_def db_sold_out winners_sold_out payouts_sold_out)
qed

subsection \<open>Confirmation\<close>

lemma tickets_activate_tickets:
  "tickets (activate_tickets d ns) = mark_active ns (tickets d)"
  unfolding activate_tickets_def mark_active_def
proof (induction ns arbitrary: d)
  case Nil show ?case by simp
next
  case (Cons t ns)
  have "(\<lambda>r. if ticket_number r \<in> set ns then r\<lparr>active := True\<rparr> else r) \<circ>
        (\<lambda>r. if ticket_number r = t then r\<lparr>active := True\<rparr> else r) =
        (\<lambda>r. if ticket_number r \<in> set (t # ns) then r\<lparr>active := True\<rparr> else r)"
    by (rule ext) simp
  then show ?case by (simp add: Cons.IH)
qed

lemma activate_tickets_other [simp]:
  "users (activate_tickets d ns) = users d"
  "payments (activate_tickets d ns) = payments d"
  "draws (activate_tickets d ns) = draws d"
  unfolding activate_tickets_def by (induction ns arbitrary: d) simp_all

lemma activate_tickets_eq:
  "activate_tickets d ns = d\<lparr>tickets := mark_active ns (tickets d)\<rparr>"
  by (rule DB.equality) (simp_all add: tickets_activate_tickets)

lemma mark_active_Nil [simp]: "mark_active [] ts = ts"
  by (simp add: mark_active_def)

lemma confirm_none:
  "unconfirmed d iid = [] \<Longrightarrow> confirm_payment_by_invoice d iid tx = (None, d)"
  by (simp add: confirm_payment_by_invoice_def unconfirmed_def sql_limit_def)

lemma sorted_le_last: "sorted zs \<Longrightarrow> z \<in> set zs \<Longrightarrow> z \<le> last zs"
  by (induction zs) auto

lemma last_sort_key_max:
  assumes "p \<in> set xs" and "\<forall>q \<in> set xs. f q \<le> f p" and "inj_on f (set xs)"
  shows "last (sort_key f xs) = p"
proof -
  let ?ys = "sort_key f xs"
  have ne: "?ys \<noteq> []" using assms(1) by (metis empty_iff set_empty set_sort)
  then have l: "last ?ys \<in> set xs" using last_in_set [OF ne] by simp
  have "sorted (map f ?ys)" by simp
  moreover have "f p \<in> set (map f ?ys)" using assms(1) by simp
  ultimately have "f p \<le> last (map f ?ys)" by (rule sorted_le_last)
  then have "f p \<le> f (last ?ys)" using ne by (simp add: last_map)
  with assms(2) l have "f (last ?ys) = f p" by force
  with assms(3) l assms(1) show ?thesis by (auto dest: inj_onD)
qed

lemma confirm_some:
  assumes "distinct (map payment_id (payments d))"
    and "p \<in> set (unconfirmed d iid)"
    and "\<forall>q \<in> set (unconfirmed d iid). payment_id q \<le> payment_id p"
  shows "confirm_payment_by_invoice d iid tx =
    (Some \<lparr>info_telegram_id = payer p, info_amount = amount p,
           info_invoice_id = iid, info_payment_id = payment_id p\<rparr>,
     d\<lparr>payments := mark_confirmed (payment_id p) tx (payments d)\<rparr>)"
proof -
  let ?xs = "unconfirmed d iid"
  have "inj_on payment_id (set (payments d))"
    using assms(1) by (simp add: distinct_map)
  then have inj: "inj_on payment_id (set ?xs)"
    by (rule inj_on_subset) (auto simp: unconfirmed_def)
  have l: "last (sort_key payment_id ?xs) = p"
    using assms(2,3) inj by (rule last_sort_key_max)
  have ne: "sort_key payment_id ?xs \<noteq> []"
    using assms(2) by (metis empty_iff set_empty set_sort)
  then obtain zs where "rev (sort_key payment_id ?xs) = p # zs"
    using l by (metis hd_rev list.exhaust_sel rev_is_Nil_conv)
  then show ?thesis
    unfolding confirm_payment_by_invoice_def unconfirmed_def [symmetric]
    by (simp add: sql_limit_def mark_confirmed_def)
qed

lemma py_round_of_nat: "py_round (TICKET_PRICE * of_nat k / TICKET_PRICE) = int k"
proof -
  have "TICKET_PRICE * of_nat k / TICKET_PRICE = (of_int (int k) :: rat)"
    by (simp add: TICKET_PRICE_def)
  then show ?thesis by (simp only: py_round_of_int)
qed

lemma activate_payment_none:
  "unconfirmed (db c) iid = [] \<Longrightarrow>
   activate_payment c iid tx = (Rejected ''invoice_not_found_or_already_confirmed'', c)"
  by (simp add: activate_payment_def confirm_none)

lemma activate_payment_some:
  assumes "distinct (map payment_id (payments (db c)))"
    and "p \<in> set (unconfirmed (db c) iid)"
    and "\<forall>q \<in> set (unconfirmed (db c) iid). payment_id q \<le> payment_id p"
  shows "activate_payment c iid tx =
    (Activated
       (sql_limit (py_round (amount p / TICKET_PRICE))
          (rev (sort (inactive_tickets (db c) (payer p)))))
       (payer p) (amount p),
     c\<lparr>db := (db c)\<lparr>payments := mark_confirmed (payment_id p) tx (payments (db c)),
                     tickets := mark_active
                        (sql_limit (py_round (amount p / TICKET_PRICE))
                           (rev (sort (inactive_tickets (db c) (payer p)))))
                        (tickets (db c))\<rparr>\<rparr>)"
  unfolding activate_payment_def confirm_some [OF assms]
  by (simp add: Let_def inactive_tickets_def activate_tickets_eq)

lemma length_filter_disj:
  "length (filter (\<lambda>x. P x \<or> Q x) xs) =
   length (filter P xs) + length (filter (\<lambda>x. \<not> P x \<and> Q x) xs)"
  by (induction xs) auto

lemma length_filter_mem:
  assumes "distinct xs" and "distinct ns" and "set ns \<subseteq> set xs"
  shows "length (filter (\<lambda>x. x \<in> set ns) xs) = length ns"
proof -
  have "length (filter (\<lambda>x. x \<in> set ns) xs) = card ({x. x \<in> set ns} \<inter> set xs)"
    using assms(1) by (rule distinct_length_filter)
  also have "{x. x \<in> set ns} \<inter> set xs = set ns" using assms(3) by auto
  also have "card (set ns) = length ns" using assms(2) by (rule distinct_card)
  finally show ?thesis .
qed

lemma count_mark_active:
  assumes "distinct (map ticket_number ts)" and "distinct ns"
    and "set ns \<subseteq> set (map ticket_number (filter (\<lambda>r. \<not> active r) ts))"
  shows "length (filter active (mark_active ns ts)) = length (filter active ts) + length ns"
proof -
  let ?inact = "filter (\<lambda>r. \<not> active r) ts"
  have "length (filter active (mark_active ns ts)) =
        length (filter (\<lambda>r. active r \<or> ticket_number r \<in> set ns) ts)"
    by (induction ts) (auto simp: mark_active_def)
  also have "\<dots> = length (filter active ts) +
        length (filter (\<lambda>r. \<not> active r \<and> ticket_number r \<in> set ns) ts)"
    by (rule length_filter_disj)
  also have "length (filter (\<lambda>r. \<not> active r \<and> ticket_number r \<in> set ns) ts) =
        length (filter (\<lambda>x. x \<in> set ns) (map ticket_number ?inact))"
    by (simp add: filter_map o_def conj_commute)
  also have "\<dots> = length ns"
    using assms(1) by (intro length_filter_mem assms(2,3)) (simp add: distinct_map_filter)
  finally show ?thesis .
qed

lemma active_numbers_insert:
  "{ticket_number r | r. r \<in> insert x S \<and> active r} =
   (if active x then {ticket_number x} else {}) \<union> {ticket_number r | r. r \<in> S \<and> active r}"
  by auto

lemma active_numbers_mark_active_gen:
  "{ticket_number r | r. r \<in> set (mark_active ns ts) \<and> active r} =
   {ticket_number r | r. r \<in> set ts \<and> active r} \<union> (set ns \<inter> ticket_number ` set ts)"
proof (induction ts)
  case Nil show ?case by (simp add: mark_active_def)
next
  case (Cons t ts)
  have "{ticket_number r | r. r \<in> set (mark_active ns (t # ts)) \<and> active r} =
        (if active t \<or> ticket_number t \<in> set ns then {ticket_number t} else {}) \<union>
        {ticket_number r | r. r \<in> set (mark_active ns ts) \<and> active r}"
  proof -
    let ?g = "\<lambda>r. if ticket_number r \<in> set ns then r\<lparr>active := True\<rparr> else r"
    have s: "set (mark_active ns (t # ts)) = insert (?g t) (set (mark_active ns ts))"
      by (simp add: mark_active_def)
    have "{ticket_number r | r. r \<in> insert (?g t) (set (mark_active ns ts)) \<and> active r} =
          (if active (?g t) then {ticket_number (?g t)} else {}) \<union>
          {ticket_number r | r. r \<in> set (mark_active ns ts) \<and> active r}"
      by (rule active_numbers_insert)
    moreover have "active (?g t) \<longleftrightarrow> active t \<or> ticket_number t \<in> set ns"
      and "ticket_number (?g t) = ticket_number t"
      by simp_all
    ultimately show ?thesis by (simp only: s)
  qed
  also have "\<dots> =
        (if active t \<or> ticket_number t \<in> set ns then {ticket_number t} else {}) \<union>
        ({ticket_number r | r. r \<in> set ts \<and> active r} \<union> (set ns \<inter> ticket_number ` set ts))"
    by (simp only: Cons.IH)
  also have "\<dots> = {ticket_number r | r. r \<in> set (t # ts) \<and> active r} \<union>
        (set ns \<inter> ticket_number ` set (t # ts))"
    by auto
  finally show ?case .
qed

lemma active_numbers_mark_active:
  assumes "set ns \<subseteq> ticket_number ` set ts"
  shows "{ticket_number r | r. r \<in> set (mark_active ns ts) \<and> active r} =
         {ticket_number r | r. r \<in> set ts \<and> active r} \<union> set ns"
proof -
  have "set ns \<inter> ticket_number ` set ts = set ns" using assms by blast
  then show ?thesis by (simp only: active_numbers_mark_active_gen)
qed

lemma top_is_highest:
  fixes xs :: "int list"
  assumes "distinct xs"
  shows "\<forall>a \<in> set (take k (rev (sort xs))). \<forall>b \<in> set xs - set (take k (rev (sort xs))). b < a"
proof (intro ballI)
  fix a b
  let ?ys = "rev (sort xs)"
  assume a: "a \<in> set (take k ?ys)" and b: "b \<in> set xs - set (take k ?ys)"
  have "sorted_wrt (\<ge>) ?ys" by (simp add: sorted_wrt_rev)
  then have "sorted_wrt (\<ge>) (take k ?ys @ drop k ?ys)" by simp
  then have le: "\<forall>x \<in> set (take k ?ys). \<forall>y \<in> set (drop k ?ys). y \<le> x"
    by (simp only: sorted_wrt_append) blast
  have "set xs = set (take k ?ys) \<union> set (drop k ?ys)"
    by (metis append_take_drop_id set_append set_rev set_sort)
  with b have "b \<in> set (drop k ?ys)" by auto
  with le a have "b \<le> a" by blast
  moreover from a b have "a \<noteq> b" by auto
  ultimately show "b < a" by simp
qed

lemma distinct_inactive_tickets:
  "distinct (map ticket_number (tickets d)) \<Longrightarrow> distinct (inactive_tickets d tid)"
  by (simp add: inactive_tickets_def distinct_map_filter)

lemma inactive_tickets_subset:
  "set (inactive_tickets d tid) \<subseteq> set (map ticket_number (filter (\<lambda>r. \<not> active r) (tickets d)))"
  by (auto simp: inactive_tickets_def)

lemma inactive_numbers_not_active:
  assumes "distinct (map ticket_number (tickets d))"
  shows "set (map ticket_number (filter (\<lambda>r. \<not> active r) (tickets d))) \<inter>
         set (get_all_active_tickets d) = {}"
proof -
  have "inj_on ticket_number (set (tickets d))" using assms by (simp add: distinct_map)
  then show ?thesis by (auto simp: get_all_active_tickets_def dest: inj_onD)
qed

text \<open>
  Claim C3. With the primary keys in force, let \<open>p\<close> be the most recent unconfirmed
  payment of the invoice and its amount \<open>TICKET_PRICE * k\<close>. The confirmation succeeds
  and returns the first \<open>k\<close> of the payer's inactive ticket numbers in descending
  order: \<open>min k n\<close> numbers when the payer has \<open>n\<close> inactive tickets, each higher
  than every inactive number of the payer left out. Exactly the rows with these
  numbers are switched to active: the active numbers grow by the returned set, which
  was disjoint from them, and the count of sold tickets by its length. Fewer than
  \<open>k\<close> inactive tickets is no error.
\<close>

theorem confirm_activates:
  assumes "primary_keys (db c)"
    and "p \<in> set (unconfirmed (db c) iid)"
    and "\<forall>q \<in> set (unconfirmed (db c) iid). payment_id q \<le> payment_id p"
    and "amount p = TICKET_PRICE * of_nat k"
  shows "let pending = inactive_tickets (db c) (payer p);
             ws = take k (rev (sort pending));
             c' = snd (activate_payment c iid tx)
         in fst (activate_payment c iid tx) = Activated ws (payer p) (amount p)
          \<and> length ws = min k (length pending)
          \<and> set ws \<subseteq> set pending
          \<and> (\<forall>a \<in> set ws. \<forall>b \<in> set pending - set ws. b < a)
          \<and> tickets (db c') = mark_active ws (tickets (db c))
          \<and> set (get_all_active_tickets (db c')) = set (get_all_active_tickets (db c)) \<union> set ws
          \<and> set (get_all_active_tickets (db c)) \<inter> set ws = {}
          \<and> count_sold_tickets (db c') = count_sold_tickets (db c) + int (length ws)"
proof -
  let ?pending = "inactive_tickets (db c) (payer p)"
  let ?ws = "take k (rev (sort ?pending))"
  let ?c' = "snd (activate_payment c iid tx)"
  have pk: "distinct (map ticket_number (tickets (db c)))"
    "distinct (map payment_id (payments (db c)))"
    using assms(1) by (simp_all add: primary_keys_def)
  have lim: "sql_limit (py_round (amount p / TICKET_PRICE)) (rev (sort ?pending)) = ?ws"
    by (simp only: assms(4) py_round_of_nat) (simp add: sql_limit_def)
  note ap = activate_payment_some [OF pk(2) assms(2,3), of tx, unfolded lim]
  have r: "fst (activate_payment c iid tx) = Activated ?ws (payer p) (amount p)"
    by (simp add: ap)
  have t: "tickets (db ?c') = mark_active ?ws (tickets (db c))"
    by (simp add: ap)
  have l: "length ?ws = min k (length ?pending)" by (simp add: min.commute)
  have sub: "set ?ws \<subseteq> set ?pending"
    using set_take_subset [of k "rev (sort ?pending)"] by simp
  have dp: "distinct ?pending" using pk(1) by (rule distinct_inactive_tickets)
  then have dw: "distinct ?ws" by simp
  have hi: "\<forall>a \<in> set ?ws. \<forall>b \<in> set ?pending - set ?ws. b < a"
    using dp by (rule top_is_highest)
  have sub': "set ?ws \<subseteq> set (map ticket_number (filter (\<lambda>r. \<not> active r) (tickets (db c))))"
    using sub inactive_tickets_subset [of "db c" "payer p"] by blast
  then have sub'': "set ?ws \<subseteq> ticket_number ` set (tickets (db c))" by auto
  have cnt: "count_sold_tickets (db ?c') = count_sold_tickets (db c) + int (length ?ws)"
    unfolding count_sold_tickets_def t using count_mark_active [OF pk(1) dw sub'] by simp
  have act: "set (get_all_active_tickets (db ?c')) = set (get_all_active_tickets (db c)) \<union> set ?ws"
    unfolding set_get_all_active_tickets t by (rule active_numbers_mark_active [OF sub''])
  have dis: "set (get_all_active_tickets (db c)) \<inter> set ?ws = {}"
    using inactive_numbers_not_active [OF pk(1)] sub' by blast
  from r l sub hi t act dis cnt show ?thesis unfolding Let_def by blast
qed

lemma reserved_core_eq: "snd (reserve_tickets init_core ''u1'' 3) = reserved_core"
proof -
  have a: "3 \<le> available init_core" by (simp add: available_init MAX_TICKETS_def)
  have u: "[1 .. 3] = [1, 2, 3 :: int]" by (simp add: upto_rec1)
  have e: "db init_core = empty_db" by (simp add: init_core_def new_core_def)
  show ?thesis
    using a
    by (simp add: reserve_tickets_ok next_ticket_init u e empty_db_def ensure_user_def
        add_tickets_def insert_or_replace_def record_payment_def next_rowid_def
        TICKET_PRICE_def str_int_def str_nat.simps digit_char_def reserved_core_def)
qed

text \<open>
  The scenario of the specification: after \<open>reserve("u1", 3)\<close>, confirming
  \<open>u1-1-3\<close> with amount 1.5 activates \<open>[3, 2, 1]\<close>.
\<close>

theorem confirm_activates_witness:
  "primary_keys (db reserved_core)
   \<and> unconfirmed (db reserved_core) ''u1-1-3'' =
        [\<lparr>payment_id = 1, payer = ''u1'', invoice_id = ''u1-1-3'',
          amount = TICKET_PRICE * of_nat 3, tx_hash = [], confirmed = False\<rparr>]
   \<and> inactive_tickets (db reserved_core) ''u1'' = [1, 2, 3]
   \<and> fst (activate_payment reserved_core ''u1-1-3'' ''0xabc'') = Activated [3, 2, 1] ''u1'' (3 / 2)
   \<and> get_all_active_tickets (db reserved_core) = []
   \<and> set (get_all_active_tickets (db (snd (activate_payment reserved_core ''u1-1-3'' ''0xabc'')))) =
        {1, 2, 3}
   \<and> count_sold_tickets (db (snd (activate_payment reserved_core ''u1-1-3'' ''0xabc''))) = 3"
proof -
  let ?p = "\<lparr>payment_id = 1, payer = ''u1'', invoice_id = ''u1-1-3'',
          amount = TICKET_PRICE * of_nat 3, tx_hash = [], confirmed = False\<rparr>"
  have pk: "primary_keys (db reserved_core)"
    by (simp add: primary_keys_def reserved_core_def)
  have un: "unconfirmed (db reserved_core) ''u1-1-3'' = [?p]"
    by (simp add: unconfirmed_def reserved_core_def TICKET_PRICE_def)
  have pend: "inactive_tickets (db reserved_core) ''u1'' = [1, 2, 3]"
    by (simp add: inactive_tickets_def reserved_core_def)
  have act: "get_all_active_tickets (db reserved_core) = []"
    by (simp add: get_all_active_tickets_def reserved_core_def)
  have cnt: "count_sold_tickets (db reserved_core) = 0"
    by (simp add: count_sold_tickets_def reserved_core_def)
  have srt: "take 3 (rev (sort [1, 2, 3 :: int])) = [3, 2, 1]" by simp
  have h2: "?p \<in> set (unconfirmed (db reserved_core) ''u1-1-3'')" by (simp only: un) simp
  have h3: "\<forall>q \<in> set (unconfirmed (db reserved_core) ''u1-1-3''). payment_id q \<le> payment_id ?p"
    by (simp only: un) simp
  have h4: "amount ?p = TICKET_PRICE * of_nat 3" by simp
  from confirm_activates [OF pk h2 h3 h4, of "''0xabc''"]
  have "fst (activate_payment reserved_core ''u1-1-3'' ''0xabc'') = Activated [3, 2, 1] ''u1'' (3 / 2)
    \<and> set (get_all_active_tickets (db (snd (activate_payment reserved_core ''u1-1-3'' ''0xabc'')))) =
        {1, 2, 3}
    \<and> count_sold_tickets (db (snd (activate_payment reserved_core ''u1-1-3'' ''0xabc''))) = 3"
    unfolding Let_def by (simp add: pend srt act cnt TICKET_PRICE_def insert_commute)
  with pk un pend act show ?thesis by simp
qed

lemma unconfirmed_mark_confirmed:
  assumes "unconfirmed d iid = [p]"
  shows "unconfirmed (d\<lparr>payments := mark_confirmed (payment_id p) tx (payments d)\<rparr>) iid = []"
proof -
  have "\<And>q. q \<in> set (payments d) \<Longrightarrow> invoice_id q = iid \<Longrightarrow> \<not> confirmed q \<Longrightarrow> q = p"
  proof -
    fix q assume "q \<in> set (payments d)" "invoice_id q = iid" "\<not> confirmed q"
    then have "q \<in> set (unconfirmed d iid)" by (simp add: unconfirmed_def)
    then show "q = p" by (simp add: assms)
  qed
  then show ?thesis
    by (auto simp: unconfirmed_def mark_confirmed_def filter_empty_conv)
qed

text \<open>
  Claim C10. When the only unconfirmed payment of an invoice belongs to an owner
  without inactive tickets, confirming the invoice succeeds with an empty list of
  activated tickets, marks the payment confirmed with the transaction hash, leaves the
  tickets as they were, and every later confirmation of the invoice is rejected as
  not found or already confirmed, leaving the state as it is.
\<close>

theorem confirm_without_tickets:
  assumes "primary_keys (db c)"
    and "unconfirmed (db c) iid = [p]"
    and "inactive_tickets (db c) (payer p) = []"
  shows "activate_payment c iid tx =
           (Activated [] (payer p) (amount p),
            c\<lparr>db := (db c)\<lparr>payments := mark_confirmed (payment_id p) tx (payments (db c))\<rparr>\<rparr>)
    \<and> p\<lparr>confirmed := True, tx_hash := tx\<rparr> \<in>
         set (payments (db (snd (activate_payment c iid tx))))
    \<and> tickets (db (snd (activate_payment c iid tx))) = tickets (db c)
    \<and> unconfirmed (db (snd (activate_payment c iid tx))) iid = []
    \<and> (\<forall>tx'. activate_payment (snd (activate_payment c iid tx)) iid tx' =
          (Rejected ''invoice_not_found_or_already_confirmed'', snd (activate_payment c iid tx)))"
proof -
  let ?c' = "c\<lparr>db := (db c)\<lparr>payments := mark_confirmed (payment_id p) tx (payments (db c))\<rparr>\<rparr>"
  have pk: "distinct (map payment_id (payments (db c)))"
    using assms(1) by (simp add: primary_keys_def)
  have h2: "p \<in> set (unconfirmed (db c) iid)" by (simp add: assms(2))
  have h3: "\<forall>q \<in> set (unconfirmed (db c) iid). payment_id q \<le> payment_id p"
    by (simp add: assms(2))
  have ap: "activate_payment c iid tx = (Activated [] (payer p) (amount p), ?c')"
    unfolding activate_payment_some [OF pk h2 h3] assms(3) by (simp add: sql_limit_def)
  have "p \<in> set (payments (db c))" using h2 by (simp add: unconfirmed_def)
  then have m: "p\<lparr>confirmed := True, tx_hash := tx\<rparr> \<in> set (payments (db ?c'))"
    by (force simp: mark_confirmed_def)
  have u: "unconfirmed (db ?c') iid = []"
    using unconfirmed_mark_confirmed [OF assms(2), of tx] by simp
  then have r: "\<And>tx'. activate_payment ?c' iid tx' =
      (Rejected ''invoice_not_found_or_already_confirmed'', ?c')"
    by (rule activate_payment_none)
  from m u r show ?thesis unfolding ap by simp
qed

text \<open>One paid ticket, one payment still pending.\<close>

theorem confirm_without_tickets_witness:
  "primary_keys (db stale_core)
   \<and> unconfirmed (db stale_core) ''u1-1-1'' =
        [\<lparr>payment_id = 1, payer = ''u1'', invoice_id = ''u1-1-1'',
          amount = 1 / 2, tx_hash = [], confirmed = False\<rparr>]
   \<and> inactive_tickets (db stale_core) ''u1'' = []
   \<and> fst (activate_payment stale_core ''u1-1-1'' ''0xabc'') = Activated [] ''u1'' (1 / 2)
   \<and> payments (db (snd (activate_payment stale_core ''u1-1-1'' ''0xabc''))) =
        [\<lparr>payment_id = 1, payer = ''u1'', invoice_id = ''u1-1-1'',
          amount = 1 / 2, tx_hash = ''0xabc'', confirmed = True\<rparr>]
   \<and> tickets (db (snd (activate_payment stale_core ''u1-1-1'' ''0xabc''))) =
        [\<lparr>ticket_number = 1, telegram_id = ''u1'', active = True\<rparr>]
   \<and> fst (activate_payment (snd (activate_payment stale_core ''u1-1-1'' ''0xabc''))
            ''u1-1-1'' ''0xdef'') = Rejected ''invoice_not_found_or_already_confirmed''"
proof -
  let ?p = "\<lparr>payment_id = 1, payer = ''u1'', invoice_id = ''u1-1-1'',
          amount = 1 / 2, tx_hash = [], confirmed = False\<rparr>"
  have pk: "primary_keys (db stale_core)"
    by (simp add: primary_keys_def stale_core_def)
  have un: "unconfirmed (db stale_core) ''u1-1-1'' = [?p]"
    by (simp add: unconfirmed_def stale_core_def)
  have pend: "inactive_tickets (db stale_core) (payer ?p) = []"
    by (simp add: inactive_tickets_def stale_core_def)
  have t: "tickets (db stale_core) = [\<lparr>ticket_number = 1, telegram_id = ''u1'', active = True\<rparr>]"
    "payments (db stale_core) = [?p]"
    by (simp_all add: stale_core_def)
  note th = confirm_without_tickets [OF pk un pend, of "''0xabc''"]
  from th have "activate_payment (snd (activate_payment stale_core ''u1-1-1'' ''0xabc''))
            ''u1-1-1'' ''0xdef'' =
      (Rejected ''invoice_not_found_or_already_confirmed'',
       snd (activate_payment stale_core ''u1-1-1'' ''0xabc''))"
    by blast
  then have r: "fst (activate_payment (snd (activate_payment stale_core ''u1-1-1'' ''0xabc''))
            ''u1-1-1'' ''0xdef'') = Rejected ''invoice_not_found_or_already_confirmed''"
    by simp
  from th have "activate_payment stale_core ''u1-1-1'' ''0xabc'' =
      (Activated [] (payer ?p) (amount ?p),
       stale_core\<lparr>db := (db stale_core)\<lparr>payments :=
         mark_confirmed (payment_id ?p) ''0xabc'' (payments (db stale_core))\<rparr>\<rparr>)"
    by blast
  then have a: "activate_payment stale_core ''u1-1-1'' ''0xabc'' =
      (Activated [] ''u1'' (1 / 2),
       stale_core\<lparr>db := (db stale_core)\<lparr>payments :=
         mark_confirmed 1 ''0xabc'' (payments (db stale_core))\<rparr>\<rparr>)"
    by simp
  have "fst (activate_payment stale_core ''u1-1-1'' ''0xabc'') = Activated [] ''u1'' (1 / 2)"
    and "payments (db (snd (activate_payment stale_core ''u1-1-1'' ''0xabc''))) =
        [\<lparr>payment_id = 1, payer = ''u1'', invoice_id = ''u1-1-1'',
          amount = 1 / 2, tx_hash = ''0xabc'', confirmed = True\<rparr>]"
    and "tickets (db (snd (activate_payment stale_core ''u1-1-1'' ''0xabc''))) =
        [\<lparr>ticket_number = 1, telegram_id = ''u1'', active = True\<rparr>]"
    by (simp_all add: a t mark_confirmed_def)
  with pk un pend r show ?thesis by simp
qed

subsection \<open>Invoice identifiers\<close>

lemma digit_char_inj:
  assumes "d < 10" and "e < 10" and "digit_char d = digit_char e"
  shows "d = e"
proof -
  have "distinct ''0123456789''" by simp
  moreover have "d < length ''0123456789''" "e < length ''0123456789''" using assms by simp_all
  ultimately show ?thesis using assms(3) unfolding digit_char_def
    by (simp only: nth_eq_iff_index_eq)
qed

lemma digit_char_not_dash: "d < 10 \<Longrightarrow> digit_char d \<noteq> CHR ''-''"
proof -
  assume "d < 10"
  then have "d < length ''0123456789''" by simp
  then have "''0123456789'' ! d \<in> set ''0123456789''" by (rule nth_mem)
  then show ?thesis unfolding digit_char_def by auto
qed

lemma dash_notin_str_nat: "CHR ''-'' \<notin> set (str_nat n)"
proof (induction n rule: str_nat.induct)
  case (1 n)
  show ?case
  proof (cases "n < 10")
    case True
    then show ?thesis using digit_char_not_dash [of n] by (simp add: str_nat.simps [of n])
  next
    case False
    have "n mod 10 < 10" by simp
    then have "digit_char (n mod 10) \<noteq> CHR ''-''" by (rule digit_char_not_dash)
    with False 1 show ?thesis by (auto simp: str_nat.simps [of n])
  qed
qed

lemma str_nat_not_Nil: "str_nat n \<noteq> []"
  by (subst str_nat.simps) simp

lemma str_nat_inj: "str_nat m = str_nat n \<Longrightarrow> m = n"
proof (induction m arbitrary: n rule: str_nat.induct)
  case (1 m)
  show ?case
  proof (cases "m < 10")
    case m: True
    show ?thesis
    proof (cases "n < 10")
      case True
      with m 1(2) show ?thesis
        by (simp add: str_nat.simps [of m] str_nat.simps [of n] digit_char_inj)
    next
      case False
      with m 1(2) show ?thesis
        using str_nat_not_Nil [of "n div 10"]
        by (simp add: str_nat.simps [of m] str_nat.simps [of n] Cons_eq_append_conv)
    qed
  next
    case m: False
    show ?thesis
    proof (cases "n < 10")
      case True
      with m 1(2) show ?thesis
        using str_nat_not_Nil [of "m div 10"]
        by (simp add: str_nat.simps [of m] str_nat.simps [of n] append_eq_Cons_conv)
    next
      case False
      with m 1(2) have e: "str_nat (m div 10) = str_nat (n div 10)"
        and d: "digit_char (m mod 10) = digit_char (n mod 10)"
        by (simp_all add: str_nat.simps [of m] str_nat.simps [of n])
      from e have q: "m div 10 = n div 10" using m by (rule 1(1) [rotated])
      have r: "m mod 10 = n mod 10"
        using d by (intro digit_char_inj) simp_all
      have "m = 10 * (m div 10) + m mod 10" by simp
      also have "\<dots> = 10 * (n div 10) + n mod 10" by (simp only: q r)
      also have "\<dots> = n" by simp
      finally show ?thesis .
    qed
  qed
qed

lemma str_int_nonneg: "0 \<le> i \<Longrightarrow> str_int i = str_nat (nat i)"
  by (simp add: str_int_def)

lemma str_int_inj: "0 \<le> i \<Longrightarrow> 0 \<le> j \<Longrightarrow> str_int i = str_int j \<Longrightarrow> i = j"
  using str_nat_inj [of "nat i" "nat j"] by (simp add: str_int_nonneg)

lemma dash_notin_str_int: "0 \<le> i \<Longrightarrow> CHR ''-'' \<notin> set (str_int i)"
  by (simp add: str_int_nonneg dash_notin_str_nat)

lemma split_at_last:
  assumes "xs @ c # u = ys @ c # v" and "c \<notin> set u" and "c \<notin> set v"
  shows "xs = ys \<and> u = v"
proof -
  from assms(1) have "rev (xs @ c # u) = rev (ys @ c # v)" by (rule arg_cong)
  then have e: "rev u @ c # rev xs = rev v @ c # rev ys" by simp
  have "takeWhile (\<lambda>x. x \<noteq> c) (rev u @ c # rev xs) = rev u"
    using assms(2) by (subst takeWhile_append2) auto
  moreover have "takeWhile (\<lambda>x. x \<noteq> c) (rev v @ c # rev ys) = rev v"
    using assms(3) by (subst takeWhile_append2) auto
  ultimately have "rev u = rev v" using e by simp
  then have "u = v" by simp
  with assms(1) show ?thesis by simp
qed

lemma invoice_inj:
  assumes "tid @ ''-'' @ str_int f @ ''-'' @ str_int l =
           tid' @ ''-'' @ str_int f' @ ''-'' @ str_int l'"
    and "0 \<le> f" "0 \<le> l" "0 \<le> f'" "0 \<le> l'"
  shows "tid = tid' \<and> f = f' \<and> l = l'"
proof -
  have "(tid @ ''-'' @ str_int f) @ CHR ''-'' # str_int l =
        (tid' @ ''-'' @ str_int f') @ CHR ''-'' # str_int l'"
    using assms(1) by simp
  from split_at_last [OF this dash_notin_str_int [OF assms(3)] dash_notin_str_int [OF assms(5)]]
  have a: "tid @ ''-'' @ str_int f = tid' @ ''-'' @ str_int f'" and b: "str_int l = str_int l'"
    by simp_all
  from a have "tid @ CHR ''-'' # str_int f = tid' @ CHR ''-'' # str_int f'" by simp
  from split_at_last [OF this dash_notin_str_int [OF assms(2)] dash_notin_str_int [OF assms(4)]]
  have c: "tid = tid'" and d: "str_int f = str_int f'"
    by simp_all
  from b d c show ?thesis using assms(2-5) by (simp add: str_int_inj)
qed

subsection \<open>An invariant of the reachable states\<close>

lemma fold_max_ge: "a \<le> fold max xs (a :: int) \<and> (\<forall>x \<in> set xs. x \<le> fold max xs a)"
proof (induction xs arbitrary: a)
  case Nil show ?case by simp
next
  case (Cons x xs)
  from Cons.IH [of "max x a"] show ?case by auto
qed

lemma next_rowid_fresh: "next_rowid ids \<notin> set ids"
  using fold_max_ge [of 0 ids] by (auto simp: next_rowid_def)

lemma map_mark_active [simp]: "map ticket_number (mark_active ws ts) = map ticket_number ts"
  by (simp add: mark_active_def o_def if_distrib [of ticket_number])

lemma map_mark_confirmed [simp]:
  "map payment_id (mark_confirmed pid tx ps) = map payment_id ps"
  "map invoice_id (mark_confirmed pid tx ps) = map invoice_id ps"
  "map payer (mark_confirmed pid tx ps) = map payer ps"
  "map amount (mark_confirmed pid tx ps) = map amount ps"
  by (simp_all add: mark_confirmed_def o_def if_distrib [of payment_id] if_distrib [of invoice_id]
      if_distrib [of payer] if_distrib [of amount])

lemma activate_payment_shape:
  "snd (activate_payment c iid tx) = c \<or>
   (\<exists>pid ws. snd (activate_payment c iid tx) =
      c\<lparr>db := (db c)\<lparr>payments := mark_confirmed pid tx (payments (db c)),
                      tickets := mark_active ws (tickets (db c))\<rparr>\<rparr>)"
proof (cases "confirm_payment_by_invoice (db c) iid tx")
  case (Pair info d1)
  show ?thesis
  proof (cases info)
    case None
    with Pair show ?thesis by (simp add: activate_payment_def)
  next
    case (Some i)
    with Pair obtain pid where d1: "d1 = (db c)\<lparr>payments := mark_confirmed pid tx (payments (db c))\<rparr>"
      by (auto simp: confirm_payment_by_invoice_def mark_confirmed_def split: list.splits)
    let ?ws = "sql_limit (py_round (info_amount i / TICKET_PRICE))
        (rev (sort (map ticket_number
           (filter (\<lambda>r. telegram_id r = info_telegram_id i \<and> \<not> active r) (tickets (db c))))))"
    have "mark_active ?ws (tickets (db c)) = tickets (db c)" if "?ws = []"
      using that by simp
    then have "snd (activate_payment c iid tx) =
        c\<lparr>db := (db c)\<lparr>payments := mark_confirmed pid tx (payments (db c)),
                        tickets := mark_active ?ws (tickets (db c))\<rparr>\<rparr>"
      using Pair Some
      by (cases "?ws = []") (simp_all add: activate_payment_def Let_def activate_tickets_eq d1)
    then show ?thesis by blast
  qed
qed

lemma ledger_inv_init: "ledger_inv init_core"
  by (simp add: ledger_inv_def init_core_def new_core_def empty_db_def primary_keys_def)

lemma ledger_inv_confirm:
  assumes "ledger_inv c"
  shows "ledger_inv (snd (activate_payment c iid tx))"
proof -
  from activate_payment_shape [of c iid tx]
  consider "snd (activate_payment c iid tx) = c"
    | pid ws where "snd (activate_payment c iid tx) =
      c\<lparr>db := (db c)\<lparr>payments := mark_confirmed pid tx (payments (db c)),
                      tickets := mark_active ws (tickets (db c))\<rparr>\<rparr>"
    by blast
  then show ?thesis
  proof cases
    case 1 with assms show ?thesis by simp
  next
    case 2
    have t: "ticket_number ` set (mark_active ws (tickets (db c))) = ticket_number ` set (tickets (db c))"
      using map_mark_active [of ws "tickets (db c)"] by (metis set_map)
    have i: "invoice_id ` set (mark_confirmed pid tx (payments (db c))) =
             invoice_id ` set (payments (db c))"
      using map_mark_confirmed(2) [of pid tx "payments (db c)"] by (metis set_map)
    from assms have "\<forall>n \<in> ticket_number ` set (tickets (db c)). n < next_ticket c"
      by (simp add: ledger_inv_def)
    then have a: "\<forall>r \<in> set (mark_active ws (tickets (db c))). ticket_number r < next_ticket c"
      unfolding t [symmetric] by simp
    from assms have "\<forall>s \<in> invoice_id ` set (payments (db c)). \<exists>tid f l.
        s = tid @ ''-'' @ str_int f @ ''-'' @ str_int l \<and> 1 \<le> f \<and> 1 \<le> l \<and> f < next_ticket c"
      by (simp add: ledger_inv_def)
    then have b: "\<forall>p \<in> set (mark_confirmed pid tx (payments (db c))). \<exists>tid f l.
        invoice_id p = tid @ ''-'' @ str_int f @ ''-'' @ str_int l \<and>
        1 \<le> f \<and> 1 \<le> l \<and> f < next_ticket c"
      unfolding i [symmetric] by simp
    from assms a b show ?thesis
      unfolding 2 by (simp add: ledger_inv_def primary_keys_def)
  qed
qed

lemma ledger_inv_draw:
  assumes "ledger_inv c"
  shows "ledger_inv (snd (draw_winners c rng))"
proof (cases "count_sold_tickets (db c) < MAX_TICKETS")
  case True
  with assms show ?thesis by (simp add: draw_winners_not_ready)
next
  case False
  then have "MAX_TICKETS \<le> count_sold_tickets (db c)" by simp
  from draw_winners_ok [OF this] assms show ?thesis
    by (simp add: ledger_inv_def primary_keys_def)
qed

lemma ledger_inv_reserve:
  assumes "ledger_inv c"
  shows "ledger_inv (snd (reserve_tickets c tid qty))"
proof (cases "1 \<le> qty \<and> qty \<le> 100 \<and> qty \<le> available c")
  case False
  then have "\<exists>e. fst (reserve_tickets c tid qty) = Inl e"
    by (auto simp: reserve_tickets_def)
  then have "snd (reserve_tickets c tid qty) = c"
    using reserve_tickets_failed by blast
  with assms show ?thesis by simp
next
  case True
  let ?n = "next_ticket c"
  let ?new = "[?n .. ?n + qty - 1]"
  let ?iid = "tid @ ''-'' @ str_int ?n @ ''-'' @ str_int (?n + qty - 1)"
  let ?d2 = "add_tickets (ensure_user (db c) tid) tid ?new"
  let ?c' = "snd (reserve_tickets c tid qty)"
  from True have q: "1 \<le> qty" "qty \<le> 100" "qty \<le> available c" by simp_all
  from assms have n: "1 \<le> ?n"
    and old: "\<forall>r \<in> set (tickets (db c)). ticket_number r < ?n"
    and dt: "distinct (map ticket_number (tickets (db c)))"
    and dp: "distinct (map payment_id (payments (db c)))"
    and di: "distinct (map invoice_id (payments (db c)))"
    and fmt: "\<forall>p \<in> set (payments (db c)). \<exists>tid f l.
        invoice_id p = tid @ ''-'' @ str_int f @ ''-'' @ str_int l \<and> 1 \<le> f \<and> 1 \<le> l \<and> f < ?n"
    by (simp_all add: ledger_inv_def primary_keys_def)
  have c': "?c' = \<lparr>db = record_payment ?d2 tid ?iid (of_int qty * TICKET_PRICE) None False,
                    next_ticket = ?n + qty\<rparr>"
    by (simp add: reserve_tickets_ok [OF q])
  have keep: "filter (\<lambda>r. ticket_number r \<notin> set ?new) (tickets (db c)) = tickets (db c)"
    using old by (intro filter_True) auto
  have t2: "tickets ?d2 = tickets (db c) @
      map (\<lambda>t. \<lparr>ticket_number = t, telegram_id = tid, active = False\<rparr>) ?new"
    by (simp only: tickets_add_tickets [OF distinct_upto] ensure_user_other keep)
  have nt: "next_ticket ?c' = ?n + qty" by (simp add: c')
  have tk: "tickets (db ?c') = tickets ?d2" by (simp add: c' record_payment_def)
  have py: "payments (db ?c') = payments (db c) @
      [\<lparr>payment_id = next_rowid (map payment_id (payments (db c))), payer = tid,
        invoice_id = ?iid, amount = of_int qty * TICKET_PRICE, tx_hash = [],
        confirmed = False\<rparr>]"
    by (simp add: c' record_payment_def)
  have 1: "1 \<le> next_ticket ?c'" using n q(1) by (simp add: nt)
  have 2: "\<forall>r \<in> set (tickets (db ?c')). ticket_number r < next_ticket ?c'"
    using old q(1) by (auto simp: tk t2 nt)
  have "map ticket_number (tickets (db ?c')) = map ticket_number (tickets (db c)) @ ?new"
    by (simp add: tk t2 o_def)
  moreover have "set (map ticket_number (tickets (db c))) \<inter> set ?new = {}"
    using old by auto
  ultimately have 3: "distinct (map ticket_number (tickets (db ?c')))"
    using dt by simp
  have 4: "distinct (map payment_id (payments (db ?c')))"
    using dp next_rowid_fresh [of "map payment_id (payments (db c))"] by (simp add: py)
  have fresh: "?iid \<notin> invoice_id ` set (payments (db c))"
  proof
    assume "?iid \<in> invoice_id ` set (payments (db c))"
    then obtain p where p: "p \<in> set (payments (db c))" "invoice_id p = ?iid" by auto
    with fmt obtain tid' f l where
      e: "invoice_id p = tid' @ ''-'' @ str_int f @ ''-'' @ str_int l"
      and f: "1 \<le> f" "1 \<le> l" "f < ?n"
      by blast
    have "tid' @ ''-'' @ str_int f @ ''-'' @ str_int l =
          tid @ ''-'' @ str_int ?n @ ''-'' @ str_int (?n + qty - 1)"
      using e p(2) by simp
    then have "f = ?n" using f n q(1) by (intro invoice_inj [THEN conjunct2, THEN conjunct1]) auto
    with f(3) show False by simp
  qed
  have 5: "distinct (map invoice_id (payments (db ?c')))"
    using di fresh by (simp add: py)
  have 6: "\<forall>p \<in> set (payments (db ?c')). \<exists>tid f l.
        invoice_id p = tid @ ''-'' @ str_int f @ ''-'' @ str_int l \<and>
        1 \<le> f \<and> 1 \<le> l \<and> f < next_ticket ?c'"
  proof
    fix p assume "p \<in> set (payments (db ?c'))"
    then consider "p \<in> set (payments (db c))" | "invoice_id p = ?iid" by (auto simp: py)
    then show "\<exists>tid f l. invoice_id p = tid @ ''-'' @ str_int f @ ''-'' @ str_int l \<and>
        1 \<le> f \<and> 1 \<le> l \<and> f < next_ticket ?c'"
    proof cases
      case 1
      with fmt obtain tid' f l where
        "invoice_id p = tid' @ ''-'' @ str_int f @ ''-'' @ str_int l" "1 \<le> f" "1 \<le> l" "f < ?n"
        by blast
      then show ?thesis using q(1) unfolding nt by (intro exI [of _ tid'] exI [of _ f] exI [of _ l]) simp
    next
      case 2
      then show ?thesis using n q(1) unfolding nt
        by (intro exI [of _ tid] exI [of _ ?n] exI [of _ "?n + qty - 1"]) simp
    qed
  qed
  from 1 2 3 4 5 6 show ?thesis by (simp add: ledger_inv_def primary_keys_def)
qed

lemma reachable_ledger_inv: "reachable c \<Longrightarrow> ledger_inv c"
  by (induction rule: reachable.induct)
     (simp_all add: ledger_inv_init ledger_inv_reserve ledger_inv_confirm ledger_inv_draw)

subsection \<open>Confirming an invoice twice\<close>





lemma reachable_reserved: "reachable reserved_core"
  using reach_reserve [OF reach_init, of "''u1''" 3] by (simp only: reserved_core_eq)




subsection \<open>Selling more than the capacity\<close>

lemma reserve_tickets_state:
  assumes "ledger_inv c" and "1 \<le> qty" and "qty \<le> 100" and "qty \<le> available c"
  shows "tickets (db (snd (reserve_tickets c tid qty))) =
           tickets (db c) @
           map (\<lambda>t. \<lparr>ticket_number = t, telegram_id = tid, active = False\<rparr>)
               [next_ticket c .. next_ticket c + qty - 1]"
    and "payments (db (snd (reserve_tickets c tid qty))) =
           payments (db c) @
           [\<lparr>payment_id = next_rowid (map payment_id (payments (db c))), payer = tid,
             invoice_id = tid @ ''-'' @ str_int (next_ticket c) @ ''-'' @
                          str_int (next_ticket c + qty - 1),
             amount = of_int qty * TICKET_PRICE, tx_hash = [], confirmed = False\<rparr>]"
    and "next_ticket (snd (reserve_tickets c tid qty)) = next_ticket c + qty"
proof -
  let ?new = "[next_ticket c .. next_ticket c + qty - 1]"
  from assms(1) have old: "\<forall>r \<in> set (tickets (db c)). ticket_number r < next_ticket c"
    by (simp add: ledger_inv_def)
  have keep: "filter (\<lambda>r. ticket_number r \<notin> set ?new) (tickets (db c)) = tickets (db c)"
    using old by (intro filter_True) auto
  have "tickets (add_tickets (ensure_user (db c) tid) tid ?new) =
      tickets (db c) @ map (\<lambda>t. \<lparr>ticket_number = t, telegram_id = tid, active = False\<rparr>) ?new"
    by (simp only: tickets_add_tickets [OF distinct_upto] ensure_user_other keep)
  then show "tickets (db (snd (reserve_tickets c tid qty))) =
           tickets (db c) @
           map (\<lambda>t. \<lparr>ticket_number = t, telegram_id = tid, active = False\<rparr>) ?new"
    by (simp add: reserve_tickets_ok [OF assms(2-4)] record_payment_def)
qed (simp_all add: reserve_tickets_ok [OF assms(2-4)] record_payment_def)

lemma batch_invoice_inj:
  assumes "batch_invoice i = batch_invoice j"
  shows "i = j"
proof -
  note e = assms [unfolded batch_invoice_def]
  have "100 * int i + 1 = 100 * int j + 1"
    using invoice_inj [OF e] by simp
  then show "i = j" by simp
qed

lemma reserve_batches_state:
  "reachable (reserve_batches n)
   \<and> next_ticket (reserve_batches n) = 100 * int n + 1
   \<and> (\<forall>r \<in> set (tickets (db (reserve_batches n))). telegram_id r = ''u1'' \<and> \<not> active r)
   \<and> length (tickets (db (reserve_batches n))) = 100 * n
   \<and> (\<forall>p \<in> set (payments (db (reserve_batches n))).
         payer p = ''u1'' \<and> amount p = TICKET_PRICE * of_nat 100 \<and> \<not> confirmed p)
   \<and> (\<forall>j < n. \<exists>p \<in> set (payments (db (reserve_batches n))). invoice_id p = batch_invoice j)"
proof (induction n)
  case 0
  show ?case
    by (simp add: reach_init next_ticket_init) (simp add: init_core_def new_core_def empty_db_def)
next
  case (Suc n)
  let ?c = "reserve_batches n"
  let ?c' = "snd (reserve_tickets ?c ''u1'' 100)"
  from Suc have r: "reachable ?c"
    and nt: "next_ticket ?c = 100 * int n + 1"
    and ts: "\<forall>r \<in> set (tickets (db ?c)). telegram_id r = ''u1'' \<and> \<not> active r"
    and len: "length (tickets (db ?c)) = 100 * n"
    and ps: "\<forall>p \<in> set (payments (db ?c)).
         payer p = ''u1'' \<and> amount p = TICKET_PRICE * of_nat 100 \<and> \<not> confirmed p"
    and iv: "\<forall>j < n. \<exists>p \<in> set (payments (db ?c)). invoice_id p = batch_invoice j"
    by simp_all
  have inv: "ledger_inv ?c" using r by (rule reachable_ledger_inv)
  have "filter active (tickets (db ?c)) = []" using ts by (simp add: filter_empty_conv)
  then have "count_sold_tickets (db ?c) = 0" by (simp add: count_sold_tickets_def)
  then have av: "100 \<le> available ?c" by (simp add: available_def MAX_TICKETS_def)
  have q: "(1::int) \<le> 100" "(100::int) \<le> 100" by simp_all
  note st = reserve_tickets_state [OF inv q av, of "''u1''"]
  have 1: "reachable ?c'" using r by (rule reach_reserve)
  have 2: "next_ticket ?c' = 100 * int (Suc n) + 1" by (simp add: st(3) nt)
  have 3: "\<forall>r \<in> set (tickets (db ?c')). telegram_id r = ''u1'' \<and> \<not> active r"
    using ts by (auto simp: st(1))
  have 4: "length (tickets (db ?c')) = 100 * Suc n" by (simp add: st(1) len)
  have 5: "\<forall>p \<in> set (payments (db ?c')).
         payer p = ''u1'' \<and> amount p = TICKET_PRICE * of_nat 100 \<and> \<not> confirmed p"
    using ps by (auto simp: st(2))
  let ?row = "\<lparr>payment_id = next_rowid (map payment_id (payments (db ?c))), payer = ''u1'',
        invoice_id = ''u1'' @ ''-'' @ str_int (next_ticket ?c) @ ''-'' @
                     str_int (next_ticket ?c + 100 - 1),
        amount = of_int 100 * TICKET_PRICE, tx_hash = [], confirmed = False\<rparr>"
  have e: "100 * int n + 1 + 100 - 1 = 100 * int n + 100" by simp
  have "?row \<in> set (payments (db ?c'))" by (simp only: st(2)) simp
  moreover have "invoice_id ?row = batch_invoice n"
    unfolding batch_invoice_def nt by (simp only: e payment.select_convs)
  ultimately have new: "\<exists>p \<in> set (payments (db ?c')). invoice_id p = batch_invoice n"
    by blast
  have 6: "\<forall>j < Suc n. \<exists>p \<in> set (payments (db ?c')). invoice_id p = batch_invoice j"
  proof (intro allI impI)
    fix j assume "j < Suc n"
    then consider "j < n" | "j = n" by linarith
    then show "\<exists>p \<in> set (payments (db ?c')). invoice_id p = batch_invoice j"
    proof cases
      case 1
      with iv obtain p where "p \<in> set (payments (db ?c))" "invoice_id p = batch_invoice j"
        by blast
      then show ?thesis by (auto simp: st(2))
    next
      case 2 with new show ?thesis by simp
    qed
  qed
  from 1 2 3 4 5 6 show ?case by simp
qed

lemma mark_confirmed_other:
  assumes "distinct (map payment_id ps)" and "q \<in> set ps" and "p \<in> set ps" and "q \<noteq> p"
  shows "q \<in> set (mark_confirmed (payment_id p) tx ps)"
proof -
  have "inj_on payment_id (set ps)" using assms(1) by (simp add: distinct_map)
  then have "payment_id q \<noteq> payment_id p" using assms(2-4) by (auto dest: inj_onD)
  then show ?thesis using assms(2) by (force simp: mark_confirmed_def)
qed

lemma length_inactive_single_owner:
  assumes "\<forall>r \<in> set (tickets d). telegram_id r = tid"
  shows "int (length (inactive_tickets d tid)) = int (length (tickets d)) - count_sold_tickets d"
proof -
  have "filter (\<lambda>r. telegram_id r = tid \<and> \<not> active r) (tickets d) =
        filter (\<lambda>r. \<not> active r) (tickets d)"
    using assms by (intro filter_cong) auto
  then have "length (inactive_tickets d tid) = length (filter (\<lambda>r. \<not> active r) (tickets d))"
    by (simp add: inactive_tickets_def)
  moreover have "length (filter active (tickets d)) + length (filter (\<lambda>r. \<not> active r) (tickets d)) =
        length (tickets d)"
    by (rule sum_length_filter_compl)
  ultimately show ?thesis by (simp add: count_sold_tickets_def)
qed

lemma confirm_batch_step:
  assumes r: "reachable c"
    and ts: "\<forall>r \<in> set (tickets (db c)). telegram_id r = ''u1''"
    and len: "length (tickets (db c)) = 10100"
    and cnt: "count_sold_tickets (db c) = 100 * int m"
    and ps: "\<forall>p \<in> set (payments (db c)). payer p = ''u1'' \<and> amount p = TICKET_PRICE * of_nat 100"
    and iv: "\<forall>j. m \<le> j \<and> j < 101 \<longrightarrow>
         (\<exists>p \<in> set (payments (db c)). invoice_id p = batch_invoice j \<and> \<not> confirmed p)"
    and m: "m < 101"
  shows "reachable (snd (activate_payment c (batch_invoice m) tx))
   \<and> (\<forall>r \<in> set (tickets (db (snd (activate_payment c (batch_invoice m) tx)))).
         telegram_id r = ''u1'')
   \<and> length (tickets (db (snd (activate_payment c (batch_invoice m) tx)))) = 10100
   \<and> count_sold_tickets (db (snd (activate_payment c (batch_invoice m) tx))) = 100 * int (Suc m)
   \<and> (\<forall>p \<in> set (payments (db (snd (activate_payment c (batch_invoice m) tx)))).
         payer p = ''u1'' \<and> amount p = TICKET_PRICE * of_nat 100)
   \<and> (\<forall>j. Suc m \<le> j \<and> j < 101 \<longrightarrow>
         (\<exists>p \<in> set (payments (db (snd (activate_payment c (batch_invoice m) tx)))).
            invoice_id p = batch_invoice j \<and> \<not> confirmed p))"
proof -
  let ?iid = "batch_invoice m"
  let ?c' = "snd (activate_payment c ?iid tx)"
  let ?pending = "inactive_tickets (db c) ''u1''"
  let ?ws = "take 100 (rev (sort ?pending))"
  have inv: "ledger_inv c" using r by (rule reachable_ledger_inv)
  then have dt: "distinct (map ticket_number (tickets (db c)))"
    and dp: "distinct (map payment_id (payments (db c)))"
    and di: "distinct (map invoice_id (payments (db c)))"
    by (simp_all add: ledger_inv_def primary_keys_def)
  from iv m obtain p where p: "p \<in> set (payments (db c))" "invoice_id p = ?iid" "\<not> confirmed p"
    by blast
  have inj: "inj_on invoice_id (set (payments (db c)))" using di by (simp add: distinct_map)
  have only: "q = p" if "q \<in> set (unconfirmed (db c) ?iid)" for q
  proof -
    from that have "q \<in> set (payments (db c))" "invoice_id q = invoice_id p"
      by (simp_all add: unconfirmed_def p(2))
    with inj p(1) show ?thesis by (simp add: inj_on_eq_iff)
  qed
  have h2: "p \<in> set (unconfirmed (db c) ?iid)" using p by (simp add: unconfirmed_def)
  have h3: "\<forall>q \<in> set (unconfirmed (db c) ?iid). payment_id q \<le> payment_id p"
    using only by auto
  from ps p(1) have pp: "payer p = ''u1''" "amount p = TICKET_PRICE * of_nat 100" by auto
  have lim: "sql_limit (py_round (amount p / TICKET_PRICE)) (rev (sort ?pending)) = ?ws"
    by (simp only: pp(2) py_round_of_nat) (simp add: sql_limit_def)
  note ap = activate_payment_some [OF dp h2 h3, of tx, unfolded pp(1) lim]
  have t': "tickets (db ?c') = mark_active ?ws (tickets (db c))" by (simp add: ap)
  have p': "payments (db ?c') = mark_confirmed (payment_id p) tx (payments (db c))"
    by (simp add: ap)
  have 1: "reachable ?c'" using r by (rule reach_confirm)
  have 2: "\<forall>r \<in> set (tickets (db ?c')). telegram_id r = ''u1''"
    using ts by (auto simp: t' mark_active_def)
  have 3: "length (tickets (db ?c')) = 10100" by (simp add: t' mark_active_def len)
  have "int (length ?pending) = 10100 - 100 * int m"
    using length_inactive_single_owner [OF ts] by (simp add: len cnt)
  with m have "100 \<le> length ?pending" by linarith
  then have lw: "length ?ws = 100" by simp
  have dw: "distinct ?ws" using distinct_inactive_tickets [OF dt, of "''u1''"] by simp
  have sw: "set ?ws \<subseteq> set (map ticket_number (filter (\<lambda>r. \<not> active r) (tickets (db c))))"
    using set_take_subset [of 100 "rev (sort ?pending)"] inactive_tickets_subset [of "db c" "''u1''"]
    by auto
  have 4: "count_sold_tickets (db ?c') = 100 * int (Suc m)"
    unfolding count_sold_tickets_def t'
    using count_mark_active [OF dt dw sw] cnt lw by (simp add: count_sold_tickets_def)
  have 5: "\<forall>p \<in> set (payments (db ?c')). payer p = ''u1'' \<and> amount p = TICKET_PRICE * of_nat 100"
    using ps by (auto simp: p' mark_confirmed_def)
  have 6: "\<forall>j. Suc m \<le> j \<and> j < 101 \<longrightarrow>
         (\<exists>q \<in> set (payments (db ?c')). invoice_id q = batch_invoice j \<and> \<not> confirmed q)"
  proof (intro allI impI)
    fix j assume j: "Suc m \<le> j \<and> j < 101"
    with iv obtain q where q: "q \<in> set (payments (db c))" "invoice_id q = batch_invoice j"
      "\<not> confirmed q"
      by (metis Suc_leD)
    have "batch_invoice j \<noteq> batch_invoice m" using j batch_invoice_inj [of j m] by auto
    with q(2) p(2) have "q \<noteq> p" by auto
    with dp q(1) p(1) have "q \<in> set (payments (db ?c'))"
      unfolding p' by (rule mark_confirmed_other)
    with q(2,3) show "\<exists>q \<in> set (payments (db ?c')). invoice_id q = batch_invoice j \<and> \<not> confirmed q"
      by blast
  qed
  from 1 2 3 4 5 6 show ?thesis by blast
qed

lemma confirm_batches_state:
  "m \<le> 101 \<Longrightarrow>
   reachable (confirm_batches m)
   \<and> (\<forall>r \<in> set (tickets (db (confirm_batches m))). telegram_id r = ''u1'')
   \<and> length (tickets (db (confirm_batches m))) = 10100
   \<and> count_sold_tickets (db (confirm_batches m)) = 100 * int m
   \<and> (\<forall>p \<in> set (payments (db (confirm_batches m))).
         payer p = ''u1'' \<and> amount p = TICKET_PRICE * of_nat 100)
   \<and> (\<forall>j. m \<le> j \<and> j < 101 \<longrightarrow>
         (\<exists>p \<in> set (payments (db (confirm_batches m))).
            invoice_id p = batch_invoice j \<and> \<not> confirmed p))"
proof (induction m)
  case 0
  note st = reserve_batches_state [of 101]
  have "filter active (tickets (db (reserve_batches 101))) = []"
    using st by (simp add: filter_empty_conv)
  then have "count_sold_tickets (db (reserve_batches 101)) = 0"
    by (simp add: count_sold_tickets_def)
  with st show ?case by auto
next
  case (Suc m)
  then have "m \<le> 101" "m < 101" by simp_all
  from Suc.IH [OF this(1)] this(2) show ?case
    unfolding confirm_batches.simps by (intro confirm_batch_step) blast+
qed

lemma oversold_reachable: "reachable oversold_core"
  using confirm_batches_state [of 101] by (simp add: oversold_core_def)

lemma oversold_count: "count_sold_tickets (db oversold_core) = MAX_TICKETS + 100"
  using confirm_batches_state [of 101] by (simp add: oversold_core_def MAX_TICKETS_def)

subsection \<open>The capacity and the draw\<close>

text \<open>
  Claim C6. The count of active tickets is not bounded by the capacity in the
  reachable states. From the empty ledger, 101 reservations of 100 tickets each pass
  the availability check, since no ticket is active yet; the confirmation of the 101
  invoices then activates 100 tickets each, and 10100 tickets are active.
\<close>

theorem capacity_exceeded:
  "reachable oversold_core
   \<and> count_sold_tickets (db oversold_core) = 10100
   \<and> MAX_TICKETS < count_sold_tickets (db oversold_core)"
  using oversold_reachable oversold_count by (simp add: MAX_TICKETS_def)

text \<open>
  Claim C4, as stated, fails in two places. On a new ledger the pool has fewer than
  three members and the draw fails with \<open>NotReady\<close>, not \<open>InsufficientPool\<close>. In the
  reachable state with 10100 active tickets, more than the capacity, the draw returns
  a result.
\<close>

theorem draw_gate_counterexample:
  "length (get_all_active_tickets (db init_core)) < 3
   \<and> fst (draw_winners init_core (\<lambda>_. 0)) = Inl NotReady
   \<and> reachable oversold_core
   \<and> count_sold_tickets (db oversold_core) \<noteq> MAX_TICKETS
   \<and> \<not> isl (fst (draw_winners oversold_core (\<lambda>_. 0)))"
proof -
  have e: "tickets (db init_core) = []" by (simp add: init_core_def new_core_def empty_db_def)
  have 1: "length (get_all_active_tickets (db init_core)) < 3"
    by (simp add: get_all_active_tickets_def e)
  have "count_sold_tickets (db init_core) < MAX_TICKETS"
    by (simp add: count_sold_tickets_def e MAX_TICKETS_def)
  then have 2: "fst (draw_winners init_core (\<lambda>_. 0)) = Inl NotReady"
    by (simp add: draw_winners_not_ready)
  have "MAX_TICKETS \<le> count_sold_tickets (db oversold_core)"
    by (simp add: oversold_count)
  from draw_winners_ok [OF this, of "\<lambda>_. 0"]
  have 3: "\<not> isl (fst (draw_winners oversold_core (\<lambda>_. 0)))" by simp
  from 1 2 3 show ?thesis using oversold_reachable by (simp add: oversold_count)
qed

text \<open>
  Claim C4, amended. The draw fails with \<open>NotReady\<close> whenever fewer tickets are active
  than the capacity, and succeeds whenever at least as many are: the pool then has at
  least three members, so \<open>InsufficientPool\<close> is never the result. A failed draw
  returns the state it was given, with no draw row written.
\<close>

theorem draw_gate:
  "(count_sold_tickets (db c) < MAX_TICKETS \<longrightarrow> draw_winners c rng = (Inl NotReady, c))
   \<and> (MAX_TICKETS \<le> count_sold_tickets (db c) \<longrightarrow>
        3 \<le> length (get_all_active_tickets (db c)) \<and>
        draw_winners c rng =
          (Inr \<lparr>winners = random_sample (get_all_active_tickets (db c)) 3 rng,
                payouts = aggregate_payouts (db c)
                            (random_sample (get_all_active_tickets (db c)) 3 rng),
                bot_fee = BOT_FEE\<rparr>,
           c\<lparr>db := save_draw (db c) (random_sample (get_all_active_tickets (db c)) 3 rng)
                       PRIZES\<rparr>))
   \<and> fst (draw_winners c rng) \<noteq> Inl InsufficientPool
   \<and> (\<forall>e. fst (draw_winners c rng) = Inl e \<longrightarrow>
        snd (draw_winners c rng) = c \<and> draws (db (snd (draw_winners c rng))) = draws (db c))"
proof (cases "count_sold_tickets (db c) < MAX_TICKETS")
  case True
  then show ?thesis by (simp add: draw_winners_not_ready)
next
  case False
  then have cap: "MAX_TICKETS \<le> count_sold_tickets (db c)" by simp
  from pool_at_capacity [OF cap] draw_winners_ok [OF cap, of rng] cap show ?thesis by simp
qed

text \<open>A new ledger, and the ledger with every ticket sold.\<close>

theorem draw_gate_witness:
  "count_sold_tickets (db init_core) < MAX_TICKETS
   \<and> draw_winners init_core (\<lambda>_. 0) = (Inl NotReady, init_core)
   \<and> draws (db (snd (draw_winners init_core (\<lambda>_. 0)))) = []
   \<and> MAX_TICKETS \<le> count_sold_tickets (db sold_out_core)
   \<and> fst (draw_winners sold_out_core (\<lambda>_. 0)) =
        Inr \<lparr>winners = [1, 2, 3], payouts = [(Some ''u1'', 3000), (Some ''u2'', 1500)],
             bot_fee = BOT_FEE\<rparr>"
proof -
  have a: "count_sold_tickets (db init_core) < MAX_TICKETS"
    by (simp add: count_sold_tickets_def init_core_def new_core_def empty_db_def MAX_TICKETS_def)
  have b: "MAX_TICKETS \<le> count_sold_tickets (db sold_out_core)"
    by (simp add: count_sold_out)
  have e: "draws (db init_core) = []" by (simp add: init_core_def new_core_def empty_db_def)
  from draw_gate [of init_core "\<lambda>_. 0"] a
  have 1: "draw_winners init_core (\<lambda>_. 0) = (Inl NotReady, init_core)" by blast
  from draw_gate [of sold_out_core "\<lambda>_. 0"] b
  have 2: "fst (draw_winners sold_out_core (\<lambda>_. 0)) =
        Inr \<lparr>winners = [1, 2, 3], payouts = [(Some ''u1'', 3000), (Some ''u2'', 1500)],
             bot_fee = BOT_FEE\<rparr>"
    by (simp add: db_sold_out winners_sold_out payouts_sold_out)
  from a b 1 2 e show ?thesis by simp
qed

subsection \<open>Ticket numbers\<close>

lemma dense_init: "ticket_number ` set (tickets (db init_core)) = {1 ..< next_ticket init_core}"
  by (simp add: init_core_def new_core_def empty_db_def)

lemma dense_reserve:
  assumes "reachable c"
    and "ticket_number ` set (tickets (db c)) = {1 ..< next_ticket c}"
  shows "ticket_number ` set (tickets (db (snd (reserve_tickets c tid qty)))) =
         {1 ..< next_ticket (snd (reserve_tickets c tid qty))}"
proof (cases "1 \<le> qty \<and> qty \<le> 100 \<and> qty \<le> available c")
  case False
  then have "\<exists>e. fst (reserve_tickets c tid qty) = Inl e"
    by (auto simp: reserve_tickets_def)
  then have "snd (reserve_tickets c tid qty) = c"
    using reserve_tickets_failed by blast
  with assms(2) show ?thesis by simp
next
  case True
  then have q: "1 \<le> qty" "qty \<le> 100" "qty \<le> available c" by simp_all
  have inv: "ledger_inv c" using assms(1) by (rule reachable_ledger_inv)
  then have n: "1 \<le> next_ticket c" by (simp add: ledger_inv_def)
  note st = reserve_tickets_state [OF inv q, of tid]
  have "ticket_number ` set (tickets (db (snd (reserve_tickets c tid qty)))) =
        {1 ..< next_ticket c} \<union> {next_ticket c .. next_ticket c + qty - 1}"
    by (simp add: st(1) image_Un assms(2) image_image)
  also have "\<dots> = {1 ..< next_ticket c + qty}" using n q(1) by auto
  finally show ?thesis by (simp only: st(3))
qed

lemma dense_confirm:
  assumes "ticket_number ` set (tickets (db c)) = {1 ..< next_ticket c}"
  shows "ticket_number ` set (tickets (db (snd (activate_payment c iid tx)))) =
         {1 ..< next_ticket (snd (activate_payment c iid tx))}"
proof -
  from activate_payment_shape [of c iid tx]
  consider "snd (activate_payment c iid tx) = c"
    | pid ws where "snd (activate_payment c iid tx) =
      c\<lparr>db := (db c)\<lparr>payments := mark_confirmed pid tx (payments (db c)),
                      tickets := mark_active ws (tickets (db c))\<rparr>\<rparr>"
    by blast
  then show ?thesis
  proof cases
    case 1 with assms show ?thesis by simp
  next
    case 2
    have "set (map ticket_number (mark_active ws (tickets (db c)))) =
          set (map ticket_number (tickets (db c)))"
      by (simp only: map_mark_active)
    then have "ticket_number ` set (mark_active ws (tickets (db c))) =
          ticket_number ` set (tickets (db c))"
      by (simp only: set_map)
    then show ?thesis using assms unfolding 2 by simp
  qed
qed

lemma dense_draw:
  assumes "ticket_number ` set (tickets (db c)) = {1 ..< next_ticket c}"
  shows "ticket_number ` set (tickets (db (snd (draw_winners c rng)))) =
         {1 ..< next_ticket (snd (draw_winners c rng))}"
proof (cases "count_sold_tickets (db c) < MAX_TICKETS")
  case True
  with assms show ?thesis by (simp add: draw_winners_not_ready)
next
  case False
  then have "MAX_TICKETS \<le> count_sold_tickets (db c)" by simp
  from draw_winners_ok [OF this] assms show ?thesis by simp
qed

text \<open>
  In every reachable state the ticket numbers are exactly the numbers from 1 up to
  the cursor, each on one row: the cursor assigns them without gaps and never twice.
\<close>

theorem ticket_numbers_dense:
  assumes "reachable c"
  shows "ticket_number ` set (tickets (db c)) = {1 ..< next_ticket c}
       \<and> distinct (map ticket_number (tickets (db c)))"
proof -
  from assms have "ticket_number ` set (tickets (db c)) = {1 ..< next_ticket c}"
    by (induction rule: reachable.induct)
       (simp_all add: dense_init dense_reserve dense_confirm dense_draw)
  moreover have "distinct (map ticket_number (tickets (db c)))"
    using reachable_ledger_inv [OF assms] by (simp add: ledger_inv_def primary_keys_def)
  ultimately show ?thesis by simp
qed

theorem ticket_numbers_dense_witness:
  "reachable reserved_core
   \<and> ticket_number ` set (tickets (db reserved_core)) = {1, 2, 3}
   \<and> next_ticket reserved_core = 4
   \<and> distinct (map ticket_number (tickets (db reserved_core)))"
proof -
  have "{1 ..< 4 :: int} = {1, 2, 3}" by auto
  with ticket_numbers_dense [OF reachable_reserved] reachable_reserved
  show ?thesis by (simp add: reserved_core_def)
qed

text \<open>
  In every reachable state the primary keys hold, every ticket number is below the
  cursor, and no two payments share an invoice identifier.
\<close>

theorem reachable_invariant:
  assumes "reachable c"
  shows "ledger_inv c"
  using assms by (rule reachable_ledger_inv)

theorem reachable_invariant_witness:
  "reachable reserved_core \<and> ledger_inv reserved_core"
  using reachable_invariant [OF reachable_reserved] reachable_reserved by simp

end
